theory Spec2Isabelle
  imports Complex_Main "HOL-Library.Char_ord" "HOL-Library.List_Lexorder" "HOL-Library.Multiset"
begin

section \<open>JavaScript primitives used by the relationship engine\<close>

text \<open>
  Strings are modelled as ASCII character lists. \<open>toLowerCase\<close> lowers the letters A-Z,
  \<open>trim\<close> strips ASCII white space at both ends. The order on strings (theories
  \<open>Char_ord\<close> and \<open>List_Lexorder\<close>) is the lexicographic order on character codes, which
  is the order JavaScript's default \<open>Array.prototype.sort()\<close> uses on the string form of
  its elements. \<open>sort_key\<close> is a stable insertion sort, as \<open>Array.prototype.sort\<close> is stable.
\<close>

definition lower_char :: "char \<Rightarrow> char" where
  "lower_char c =
     (case map_of (zip ''ABCDEFGHIJKLMNOPQRSTUVWXYZ'' ''abcdefghijklmnopqrstuvwxyz'') c of
        None \<Rightarrow> c
      | Some d \<Rightarrow> d)"

definition toLowerCase :: "string \<Rightarrow> string" where
  "toLowerCase s = map lower_char s"

definition isSpace :: "char \<Rightarrow> bool" where
  "isSpace c = (c \<in> set [CHR '' '', CHR 0x09, CHR 0x0A, CHR 0x0B, CHR 0x0C, CHR 0x0D])"

definition isWordChar :: "char \<Rightarrow> bool" where
  "isWordChar c =
     (c \<in> set ''abcdefghijklmnopqrstuvwxyzABCDEFGHIJKLMNOPQRSTUVWXYZ0123456789_'')"

definition trim :: "string \<Rightarrow> string" where
  "trim s = rev (dropWhile isSpace (rev (dropWhile isSpace s)))"

text \<open>
  \<open>text.split(/\s+/)\<close>: the pieces between maximal runs of white space; a run at the start
  or at the end of the text leaves an empty piece there. \<open>cur\<close> holds the piece being
  read, reversed.
\<close>

function split_ws :: "string \<Rightarrow> string \<Rightarrow> string list" where
  "split_ws cur [] = [rev cur]"
| "split_ws cur (c # cs) =
     (if isSpace c then rev cur # split_ws [] (dropWhile isSpace cs)
      else split_ws (c # cur) cs)"
  by pat_completeness auto
termination
  by (relation "measure (\<lambda>(cur, s). length s)")
     (auto simp: le_imp_less_Suc length_dropWhile_le)

text \<open>
  \<open>String(n)\<close> for an integral number \<open>n\<close> (below the exponent notation); \<open>digits\<close>
  writes a number that is not negative in decimal.
\<close>

definition digit_char :: "int \<Rightarrow> char" where
  "digit_char i = ''0123456789'' ! nat (i mod 10)"

function digits :: "int \<Rightarrow> string" where
  "digits i = (if i < 10 then [digit_char i] else digits (i div 10) @ [digit_char i])"
  by pat_completeness auto
termination
  by (relation "measure nat") auto

declare digits.simps [simp del]

definition number_toString :: "int \<Rightarrow> string" where
  "number_toString i = (if i < 0 then CHR ''-'' # digits (- i) else digits i)"

text \<open>
  \<open>Math.random()\<close> is a source \<open>rnd\<close> of values read at a position: the call returns
  \<open>rnd n\<close> and moves the position to \<open>Suc n\<close>. \<open>Date.now()\<close> is read from a clock the
  same way. Every theorem below holds for every source.
\<close>

type_synonym random_source = "nat \<Rightarrow> rat"

type_synonym clock = "nat \<Rightarrow> int"


section \<open>Data model (relationshipService.ts)\<close>

text \<open>
  The papers arrive as the JSON body of a request (\<open>req: any\<close>), so a field that the
  interface declares as an optional array can hold, at run time, something that is not
  an array. \<open>Absent\<close> is \<open>undefined\<close> or \<open>null\<close>, \<open>Items xs\<close> an array, \<open>NotAnArray\<close> any
  other value: a string, a number, a boolean or an object, none of which has a
  \<open>forEach\<close> method.
\<close>

datatype 'a optional_array = Absent | Items "'a list" | NotAnArray

record Paper =
  id' :: string
  title :: string
  authors :: "string list"
  abstract :: "string option"
  year :: "int option"
  venue :: "string option"
  citationCount :: "int option"
  references :: "string optional_array"
  citations :: "string optional_array"

datatype RelationshipType = Citation | Content | Author | Temporal | Venue

text \<open>The string that stands for the type in a template literal.\<close>

fun type_name :: "RelationshipType \<Rightarrow> string" where
  "type_name Citation = ''citation''"
| "type_name Content = ''content''"
| "type_name Author = ''author''"
| "type_name Temporal = ''temporal''"
| "type_name Venue = ''venue''"

text \<open>
  The \<open>metadata\<close> object of a relationship: every detector sets exactly one of its
  optional fields, so it is a value tagged with that field.
\<close>

datatype Metadata =
    SharedKeywords "string list"
  | AuthorOverlap "string list"
  | CitationCountOf "int option"
  | YearDifference int
  | VenueMatch bool

text \<open>
  \<open>strength\<close> is a JavaScript number; the model computes it in exact rational
  arithmetic. Rounding of the doubles can only change the order in which
  \<open>rankRelationships\<close> leaves relationships of nearly equal score; the general theorems
  about the ranked list use only that ranking permutes its input, and in the examples
  evaluated below two relationships of equal score have the same type and strength.
\<close>

record PaperRelationship =
  sourceId :: string
  targetId :: string
  relationshipType :: RelationshipType
  strength :: rat
  metadata :: Metadata

datatype error = TypeError

text \<open>Truthiness of the optional fields, as \<open>paper.year || 2024\<close> and \<open>if (paper.venue)\<close> test it.\<close>

definition year_truthy :: "Paper \<Rightarrow> bool" where
  "year_truthy p = (case year p of None \<Rightarrow> False | Some y \<Rightarrow> y \<noteq> 0)"

definition year_or_2024 :: "Paper \<Rightarrow> int" where
  "year_or_2024 p = (case year p of None \<Rightarrow> 2024 | Some y \<Rightarrow> if y = 0 then 2024 else y)"

definition citationCount_or_0 :: "Paper \<Rightarrow> int" where
  "citationCount_or_0 p = (case citationCount p of None \<Rightarrow> 0 | Some c \<Rightarrow> c)"

definition abstract_or_empty :: "Paper \<Rightarrow> string" where
  "abstract_or_empty p = (case abstract p of None \<Rightarrow> [] | Some a \<Rightarrow> a)"


section \<open>Corpus sampler: \<open>stratifiedSample\<close>\<close>

text \<open>
  \<open>yearGroups\<close> is a \<open>Map<number, Paper[]>\<close>, kept as an association list in insertion
  order. \<open>group_push g y p\<close> is \<open>if (!g.has(y)) g.set(y, []); g.get(y).push(p)\<close>.
\<close>

fun group_push :: "(int \<times> Paper list) list \<Rightarrow> int \<Rightarrow> Paper \<Rightarrow> (int \<times> Paper list) list" where
  "group_push [] y p = [(y, [p])]"
| "group_push ((k, ps) # g) y p =
     (if k = y then (k, ps @ [p]) # g else (k, ps) # group_push g y p)"

definition yearGroups :: "Paper list \<Rightarrow> (int \<times> Paper list) list" where
  "yearGroups papers = foldl (\<lambda>g p. group_push g (year_or_2024 p) p) [] papers"

definition group_get :: "(int \<times> Paper list) list \<Rightarrow> int \<Rightarrow> Paper list" where
  "group_get g y = (case map_of g y of None \<Rightarrow> [] | Some ps \<Rightarrow> ps)"

text \<open>
  \<open>Math.ceil(sampleSize / n)\<close>. With no year group the quotient is \<open>NaN\<close> or
  \<open>Infinity\<close> in the source and is never used, since the loop over the years is empty.
\<close>

definition ceil_div :: "nat \<Rightarrow> nat \<Rightarrow> nat" where
  "ceil_div a b = (a + b - 1) div b"

definition yearSample :: "(int \<times> Paper list) list \<Rightarrow> nat \<Rightarrow> int \<Rightarrow> Paper list" where
  "yearSample g papersPerYear y =
     take papersPerYear (sort_key (\<lambda>p. - citationCount_or_0 p) (group_get g y))"

text \<open>
  \<open>sampleSize\<close> is a natural number: the method is private and its only caller passes
  \<open>Math.floor(Math.min(papers.length, Math.sqrt(50000)))\<close>.
\<close>

definition stratifiedSample :: "Paper list \<Rightarrow> nat \<Rightarrow> Paper list" where
  "stratifiedSample papers sampleSize =
     (let g = yearGroups papers;
          yearsArray = sort_key number_toString (map fst g);
          papersPerYear = ceil_div sampleSize (length yearsArray);
          sample = concat (map (yearSample g papersPerYear) yearsArray)
      in take sampleSize sample)"


section \<open>Index builder\<close>

text \<open>
  An index is a \<open>Map<string, Paper[]>\<close>; only \<open>has\<close>, \<open>get\<close> and \<open>set\<close> are used on it, so
  it is a partial function. \<open>index_push idx k p\<close> is
  \<open>if (!idx.has(k)) idx.set(k, []); idx.get(k).push(p)\<close> and \<open>index_get idx k\<close> is
  \<open>idx.get(k) || []\<close>.
\<close>

type_synonym paper_index = "string \<rightharpoonup> Paper list"

definition index_push :: "paper_index \<Rightarrow> string \<Rightarrow> Paper \<Rightarrow> paper_index" where
  "index_push idx k p = idx(k \<mapsto> (case idx k of None \<Rightarrow> [] | Some ps \<Rightarrow> ps) @ [p])"

definition index_get :: "paper_index \<Rightarrow> string \<Rightarrow> Paper list" where
  "index_get idx k = (case idx k of None \<Rightarrow> [] | Some ps \<Rightarrow> ps)"

definition buildAuthorIndex :: "Paper list \<Rightarrow> paper_index" where
  "buildAuthorIndex papers =
     foldl (\<lambda>idx paper.
              foldl (\<lambda>idx author. index_push idx (trim (toLowerCase author)) paper)
                idx (authors paper))
       Map.empty papers"

definition buildVenueIndex :: "Paper list \<Rightarrow> paper_index" where
  "buildVenueIndex papers =
     foldl (\<lambda>idx paper.
              case venue paper of
                None \<Rightarrow> idx
              | Some v \<Rightarrow> if v = [] then idx else index_push idx (trim (toLowerCase v)) paper)
       Map.empty papers"

definition stopWords :: "string list" where
  "stopWords =
     [''the'', ''a'', ''an'', ''and'', ''or'', ''but'', ''in'', ''on'', ''at'', ''to'', ''for'',
      ''of'', ''with'', ''by'', ''is'', ''are'', ''was'', ''were'', ''be'', ''been'', ''being'',
      ''have'', ''has'', ''had'', ''do'', ''does'', ''did'', ''will'', ''would'', ''could'',
      ''should'', ''this'', ''that'', ''these'', ''those'']"

definition extractKeywords :: "string \<Rightarrow> string list" where
  "extractKeywords text =
     take 20
       (filter (\<lambda>word. length word > 3 \<and> word \<notin> set stopWords)
          (split_ws []
             (map (\<lambda>c. if isWordChar c \<or> isSpace c then c else CHR '' '')
                (toLowerCase text))))"

definition paperKeywordsOf :: "Paper \<Rightarrow> string list" where
  "paperKeywordsOf paper = extractKeywords (title paper @ '' '' @ abstract_or_empty paper)"

definition buildKeywordIndex :: "Paper list \<Rightarrow> paper_index" where
  "buildKeywordIndex papers =
     foldl (\<lambda>idx paper.
              foldl (\<lambda>idx keyword. index_push idx keyword paper) idx (paperKeywordsOf paper))
       Map.empty papers"


section \<open>Relationship detectors\<close>

subsection \<open>Author\<close>

definition sharedAuthorsOf :: "Paper \<Rightarrow> Paper \<Rightarrow> string list" where
  "sharedAuthorsOf paper otherPaper =
     filter (\<lambda>a. list_ex (\<lambda>oa. toLowerCase oa = toLowerCase a) (authors otherPaper))
       (authors paper)"

definition authorEdge :: "Paper \<Rightarrow> Paper \<Rightarrow> PaperRelationship list" where
  "authorEdge paper otherPaper =
     (if id' paper \<noteq> id' otherPaper
      then (let sharedAuthors = sharedAuthorsOf paper otherPaper
            in if length sharedAuthors > 0
               then [\<lparr>sourceId = id' paper, targetId = id' otherPaper,
                      relationshipType = Author,
                      strength = min (9 / 10) (of_nat (length sharedAuthors) * (3 / 10)),
                      metadata = AuthorOverlap sharedAuthors\<rparr>]
               else [])
      else [])"

definition findAuthorRelationships :: "Paper list \<Rightarrow> paper_index \<Rightarrow> PaperRelationship list" where
  "findAuthorRelationships papers authorIndex =
     concat (map (\<lambda>paper.
        concat (map (\<lambda>author.
           concat (map (authorEdge paper) (index_get authorIndex (toLowerCase author))))
          (authors paper)))
       papers)"

subsection \<open>Venue\<close>

text \<open>
  \<open>paper.id !== otherPaper.id && Math.random() > 0.8\<close>: the random source is read only
  when the ids differ.
\<close>

fun venueEdges ::
  "random_source \<Rightarrow> Paper \<Rightarrow> Paper list \<Rightarrow> nat \<Rightarrow> PaperRelationship list \<times> nat" where
  "venueEdges rnd paper [] n = ([], n)"
| "venueEdges rnd paper (otherPaper # rest) n =
     (if id' paper \<noteq> id' otherPaper
      then (let (rels, n') = venueEdges rnd paper rest (Suc n)
            in (if rnd n > 8 / 10
                then \<lparr>sourceId = id' paper, targetId = id' otherPaper,
                      relationshipType = Venue, strength = 4 / 10,
                      metadata = VenueMatch True\<rparr> # rels
                else rels, n'))
      else venueEdges rnd paper rest n)"

fun findVenueRelationships ::
  "random_source \<Rightarrow> Paper list \<Rightarrow> paper_index \<Rightarrow> nat \<Rightarrow> PaperRelationship list \<times> nat" where
  "findVenueRelationships rnd [] venueIndex n = ([], n)"
| "findVenueRelationships rnd (paper # papers) venueIndex n =
     (let (rels, n') =
            (case venue paper of
               None \<Rightarrow> ([], n)
             | Some v \<Rightarrow>
                 if v = [] then ([], n)
                 else venueEdges rnd paper (index_get venueIndex (toLowerCase v)) n);
          (rels', n'') = findVenueRelationships rnd papers venueIndex n'
      in (rels @ rels', n''))"

subsection \<open>Content\<close>

text \<open>
  \<open>relatedPapers\<close> is a \<open>Map<string, number>\<close> that is iterated, so it is an association
  list in insertion order; \<open>count_up m k\<close> is \<open>m.set(k, (m.get(k) || 0) + 1)\<close>.
\<close>

fun count_up :: "(string \<times> nat) list \<Rightarrow> string \<Rightarrow> (string \<times> nat) list" where
  "count_up [] k = [(k, 1)]"
| "count_up ((k', c) # m) k = (if k' = k then (k', c + 1) # m else (k', c) # count_up m k)"

definition relatedPapersOf :: "Paper \<Rightarrow> paper_index \<Rightarrow> (string \<times> nat) list" where
  "relatedPapersOf paper keywordIndex =
     foldl (\<lambda>m keyword.
              foldl (\<lambda>m otherPaper.
                       if id' paper \<noteq> id' otherPaper then count_up m (id' otherPaper) else m)
                m (index_get keywordIndex keyword))
       [] (paperKeywordsOf paper)"

definition contentEdge :: "Paper list \<Rightarrow> Paper \<Rightarrow> string \<times> nat \<Rightarrow> PaperRelationship list" where
  "contentEdge papers paper entry =
     (case entry of (otherId, overlapCount) \<Rightarrow>
        if overlapCount \<ge> 3
        then (if otherId \<in> set (map id' papers)
              then [\<lparr>sourceId = id' paper, targetId = otherId,
                     relationshipType = Content,
                     strength = min (8 / 10) (of_nat overlapCount * (1 / 10)),
                     metadata = SharedKeywords (take 5 (paperKeywordsOf paper))\<rparr>]
              else [])
        else [])"

definition findContentRelationships :: "Paper list \<Rightarrow> paper_index \<Rightarrow> PaperRelationship list" where
  "findContentRelationships papers keywordIndex =
     concat (map (\<lambda>paper.
        concat (map (contentEdge papers paper) (relatedPapersOf paper keywordIndex)))
       papers)"

subsection \<open>Temporal\<close>

definition contemporaryPapers :: "Paper \<Rightarrow> Paper list \<Rightarrow> Paper list" where
  "contemporaryPapers paper later =
     filter (\<lambda>otherPaper.
               year_truthy otherPaper \<and>
               \<bar>year_or_2024 otherPaper - year_or_2024 paper\<bar> \<le> 1)
       later"

fun temporalEdges ::
  "random_source \<Rightarrow> Paper \<Rightarrow> Paper list \<Rightarrow> nat \<Rightarrow> PaperRelationship list \<times> nat" where
  "temporalEdges rnd paper [] n = ([], n)"
| "temporalEdges rnd paper (otherPaper # rest) n =
     (let (rels, n') = temporalEdges rnd paper rest (Suc n)
      in (if rnd n > 7 / 10
          then \<lparr>sourceId = id' paper, targetId = id' otherPaper,
                relationshipType = Temporal, strength = 3 / 10,
                metadata = YearDifference \<bar>year_or_2024 otherPaper - year_or_2024 paper\<bar>\<rparr> # rels
          else rels, n'))"

text \<open>
  The loop \<open>papers.forEach((paper, index) => ...)\<close> is a recursion on the list:
  \<open>papers.slice(index + 1)\<close> is the rest of the list, and \<open>index < papers.length - 1\<close>
  says that the rest is not empty.
\<close>

fun findTemporalRelationships ::
  "random_source \<Rightarrow> Paper list \<Rightarrow> nat \<Rightarrow> PaperRelationship list \<times> nat" where
  "findTemporalRelationships rnd [] n = ([], n)"
| "findTemporalRelationships rnd (paper # later) n =
     (let (rels, n') =
            (if year_truthy paper \<and> later \<noteq> []
             then temporalEdges rnd paper (take 3 (contemporaryPapers paper later)) n
             else ([], n));
          (rels', n'') = findTemporalRelationships rnd later n'
      in (rels @ rels', n''))"

subsection \<open>Citation\<close>

text \<open>
  \<open>paper.references?.forEach(...)\<close> skips an absent field and raises \<open>TypeError\<close> on a
  value that is not an array. \<open>ids\<close> is the key set of \<open>paperIdMap\<close>.
\<close>

definition citationEdge :: "string \<Rightarrow> string \<Rightarrow> Paper \<Rightarrow> PaperRelationship" where
  "citationEdge s t paper =
     \<lparr>sourceId = s, targetId = t, relationshipType = Citation, strength = 9 / 10,
      metadata = CitationCountOf (citationCount paper)\<rparr>"

definition referenceEdges :: "string list \<Rightarrow> Paper \<Rightarrow> error + PaperRelationship list" where
  "referenceEdges ids paper =
     (case references paper of
        Absent \<Rightarrow> Inr []
      | NotAnArray \<Rightarrow> Inl TypeError
      | Items refIds \<Rightarrow>
          Inr (map (\<lambda>refId. citationEdge (id' paper) refId paper)
                 (filter (\<lambda>refId. refId \<in> set ids) refIds)))"

definition citedByEdges :: "string list \<Rightarrow> Paper \<Rightarrow> error + PaperRelationship list" where
  "citedByEdges ids paper =
     (case citations paper of
        Absent \<Rightarrow> Inr []
      | NotAnArray \<Rightarrow> Inl TypeError
      | Items citIds \<Rightarrow>
          Inr (map (\<lambda>citId. citationEdge citId (id' paper) paper)
                 (filter (\<lambda>citId. citId \<in> set ids) citIds)))"

fun citationLoop :: "string list \<Rightarrow> Paper list \<Rightarrow> error + PaperRelationship list" where
  "citationLoop ids [] = Inr []"
| "citationLoop ids (paper # papers) =
     (case referenceEdges ids paper of
        Inl e \<Rightarrow> Inl e
      | Inr refs \<Rightarrow>
          (case citedByEdges ids paper of
             Inl e \<Rightarrow> Inl e
           | Inr cits \<Rightarrow>
               (case citationLoop ids papers of
                  Inl e \<Rightarrow> Inl e
                | Inr rels \<Rightarrow> Inr (refs @ cits @ rels))))"

definition findCitationRelationships :: "Paper list \<Rightarrow> error + PaperRelationship list" where
  "findCitationRelationships papers = citationLoop (map id' papers) papers"


section \<open>Deduplicator and ranker\<close>

definition key1 :: "PaperRelationship \<Rightarrow> string" where
  "key1 rel = sourceId rel @ ''-'' @ targetId rel @ ''-'' @ type_name (relationshipType rel)"

definition key2 :: "PaperRelationship \<Rightarrow> string" where
  "key2 rel = targetId rel @ ''-'' @ sourceId rel @ ''-'' @ type_name (relationshipType rel)"

fun dedupLoop :: "string set \<Rightarrow> PaperRelationship list \<Rightarrow> PaperRelationship list" where
  "dedupLoop seen [] = []"
| "dedupLoop seen (rel # rels) =
     (if key1 rel \<notin> seen \<and> key2 rel \<notin> seen
      then rel # dedupLoop (insert (key1 rel) seen) rels
      else dedupLoop seen rels)"

definition deduplicateRelationships :: "PaperRelationship list \<Rightarrow> PaperRelationship list" where
  "deduplicateRelationships relationships = dedupLoop {} relationships"

fun typeWeight :: "RelationshipType \<Rightarrow> rat" where
  "typeWeight Citation = 5"
| "typeWeight Author = 4"
| "typeWeight Content = 3"
| "typeWeight Venue = 2"
| "typeWeight Temporal = 1"

definition score :: "PaperRelationship \<Rightarrow> rat" where
  "score rel = typeWeight (relationshipType rel) * strength rel"

text \<open>The comparator \<open>bScore - aScore\<close> sorts by descending score.\<close>

definition rankRelationships :: "PaperRelationship list \<Rightarrow> PaperRelationship list" where
  "rankRelationships relationships = sort_key (\<lambda>rel. - score rel) relationships"


section \<open>\<open>analyzeRelationships\<close>\<close>

definition maxComparisons :: nat where
  "maxComparisons = 50000"

text \<open>\<open>Math.floor(Math.min(papers.length, Math.sqrt(maxComparisons)))\<close>.\<close>

definition sampleSizeOf :: "Paper list \<Rightarrow> nat" where
  "sampleSizeOf papers =
     nat \<lfloor>min (real (length papers)) (sqrt (real maxComparisons))\<rfloor>"

definition sampledPapersOf :: "Paper list \<Rightarrow> Paper list" where
  "sampledPapersOf papers = stratifiedSample papers (sampleSizeOf papers)"

text \<open>
  The indexes are built from \<open>papers\<close>, the detectors run on \<open>sampledPapers\<close>. An
  exception of the citation detector is not caught here, so it ends the call.
\<close>

definition analyzeRelationships ::
  "random_source \<Rightarrow> nat \<Rightarrow> Paper list \<Rightarrow> (error + PaperRelationship list) \<times> nat" where
  "analyzeRelationships rnd n papers =
     (let authorIndex = buildAuthorIndex papers;
          venueIndex = buildVenueIndex papers;
          keywordIndex = buildKeywordIndex papers;
          sampledPapers = sampledPapersOf papers;
          fromAuthors = findAuthorRelationships sampledPapers authorIndex;
          (fromVenues, n1) = findVenueRelationships rnd sampledPapers venueIndex n;
          fromContent = findContentRelationships sampledPapers keywordIndex;
          (fromYears, n2) = findTemporalRelationships rnd sampledPapers n1
      in case findCitationRelationships sampledPapers of
           Inl e \<Rightarrow> (Inl e, n2)
         | Inr fromCitations \<Rightarrow>
             (let relationships =
                    fromAuthors @ fromVenues @ fromContent @ fromYears @ fromCitations;
                  uniqueRelationships = deduplicateRelationships relationships;
                  rankedRelationships = rankRelationships uniqueRelationships
              in (Inr (take 200 rankedRelationships), n2)))"


section \<open>Result cache: class \<open>InstantCache\<close> (routes/research.ts)\<close>

record 'a CacheItem =
  data :: 'a
  timestamp :: int
  ttl :: int

text \<open>
  The field \<open>cache\<close> is a \<open>Map<string, CacheItem>\<close> whose entries are iterated and
  counted, so it is an association list in insertion order with \<open>Map\<close>'s \<open>set\<close>,
  \<open>get\<close> and \<open>delete\<close>. The field \<open>maxSize\<close> is never assigned after its initialiser.
\<close>

type_synonym 'a InstantCache = "(string \<times> 'a CacheItem) list"

definition maxSize :: nat where
  "maxSize = 10000"

fun map_set :: "(string \<times> 'v) list \<Rightarrow> string \<Rightarrow> 'v \<Rightarrow> (string \<times> 'v) list" where
  "map_set [] k v = [(k, v)]"
| "map_set ((k', v') # m) k v = (if k' = k then (k', v) # m else (k', v') # map_set m k v)"

definition map_delete :: "(string \<times> 'v) list \<Rightarrow> string \<Rightarrow> (string \<times> 'v) list" where
  "map_delete m k = filter (\<lambda>kv. fst kv \<noteq> k) m"

definition expired :: "int \<Rightarrow> 'a CacheItem \<Rightarrow> bool" where
  "expired now item = (now - timestamp item > ttl item)"

text \<open>
  The eviction loop \<open>for (i = 0; i < this.cache.size - this.maxSize; i++)
  this.cache.delete(entriesToDelete[i][0])\<close> reads the size again at every turn. The
  second argument is what is left of \<open>entriesToDelete\<close> from index \<open>i\<close> on. It is not
  empty when the test holds: the list holds every entry of the cache, and after \<open>i\<close>
  deletions the size is the length of the list less \<open>i\<close>.
\<close>

fun evictLoop ::
  "nat \<Rightarrow> (string \<times> 'a CacheItem) list \<Rightarrow> 'a InstantCache \<Rightarrow> 'a InstantCache" where
  "evictLoop i [] c = c"
| "evictLoop i (entry # entries) c =
     (if int i < int (length c) - int maxSize
      then evictLoop (Suc i) entries (map_delete c (fst entry))
      else c)"

definition cleanup :: "clock \<Rightarrow> nat \<Rightarrow> 'a InstantCache \<Rightarrow> 'a InstantCache \<times> nat" where
  "cleanup clk t c =
     (let now = clk t;
          swept = filter (\<lambda>kv. \<not> expired now (snd kv)) c
      in (if length swept > maxSize
          then evictLoop 0 (sort_key (\<lambda>kv. timestamp (snd kv)) swept) swept
          else swept,
          Suc t))"

definition cache_set ::
  "clock \<Rightarrow> nat \<Rightarrow> 'a InstantCache \<Rightarrow> string \<Rightarrow> 'a \<Rightarrow> int \<Rightarrow> 'a InstantCache \<times> nat" where
  "cache_set clk t c key d ttlMinutes =
     (let (c1, t1) = (if length c \<ge> maxSize then cleanup clk t c else (c, t))
      in (map_set c1 key \<lparr>data = d, timestamp = clk t1, ttl = ttlMinutes * 60 * 1000\<rparr>,
          Suc t1))"

definition cache_get ::
  "clock \<Rightarrow> nat \<Rightarrow> 'a InstantCache \<Rightarrow> string \<Rightarrow> 'a option \<times> 'a InstantCache \<times> nat" where
  "cache_get clk t c key =
     (case map_of c key of
        None \<Rightarrow> (None, c, t)
      | Some item \<Rightarrow>
          if expired (clk t) item then (None, map_delete c key, Suc t)
          else (Some (data item), c, Suc t))"


section \<open>Route \<open>POST /build-knowledge-graph\<close> (routes/research.ts)\<close>

subsection \<open>\<open>generateGraphConnections\<close>\<close>

record GraphConnection =
  conn_source :: string
  conn_target :: string
  conn_type :: string
  conn_strength :: rat

fun is_prefix :: "string \<Rightarrow> string \<Rightarrow> bool" where
  "is_prefix [] s = True"
| "is_prefix (c # cs) [] = False"
| "is_prefix (c # cs) (d # ds) = (c = d \<and> is_prefix cs ds)"

text \<open>\<open>includes_str s t\<close> is \<open>s.includes(t)\<close>.\<close>

fun includes_str :: "string \<Rightarrow> string \<Rightarrow> bool" where
  "includes_str [] t = (t = [])"
| "includes_str (c # cs) t = (is_prefix t (c # cs) \<or> includes_str cs t)"

text \<open>\<open>s.split(' ')\<close>: every single space separates two pieces.\<close>

fun split_space :: "string \<Rightarrow> string \<Rightarrow> string list" where
  "split_space cur [] = [rev cur]"
| "split_space cur (c # cs) =
     (if c = CHR '' '' then rev cur # split_space [] cs else split_space (c # cur) cs)"

definition titleWords :: "Paper \<Rightarrow> string list" where
  "titleWords paper =
     filter (\<lambda>w. length w > 3) (split_space [] (toLowerCase (title paper)))"

definition id_or_gen :: "Paper \<Rightarrow> nat \<Rightarrow> string" where
  "id_or_gen paper i = (if id' paper = [] then ''paper-gen-'' @ digits (int i) else id' paper)"

definition sharedAuthorsLoose :: "Paper \<Rightarrow> Paper \<Rightarrow> string list" where
  "sharedAuthorsLoose paper1 paper2 =
     filter (\<lambda>author.
               list_ex (\<lambda>otherAuthor.
                          includes_str (toLowerCase author) (toLowerCase otherAuthor) \<or>
                          includes_str (toLowerCase otherAuthor) (toLowerCase author))
                 (authors paper2))
       (authors paper1)"

definition connection :: "Paper list \<Rightarrow> nat \<Rightarrow> nat \<Rightarrow> string \<Rightarrow> rat \<Rightarrow> GraphConnection" where
  "connection papers i j ty s =
     \<lparr>conn_source = id_or_gen (papers ! i) i, conn_target = id_or_gen (papers ! j) j,
      conn_type = ty, conn_strength = s\<rparr>"

text \<open>
  The inner loop over \<open>j\<close>, with \<open>connectionsForThisPaper\<close> as \<open>cnt\<close>. Each of the first
  three tests ends the turn with \<open>continue\<close>; the last one reads the random source only
  when \<open>connectionsForThisPaper === 0\<close>.
\<close>

function innerLoop ::
  "random_source \<Rightarrow> Paper list \<Rightarrow> nat \<Rightarrow> nat \<Rightarrow> nat \<Rightarrow> GraphConnection list \<Rightarrow> nat \<Rightarrow>
   GraphConnection list \<times> nat" where
  "innerLoop rnd papers i j cnt connections n =
     (if j < length papers \<and> cnt < min 5 (length papers - 1) \<and>
         length connections < min 1000 (length papers * 2)
      then (let paper1 = papers ! i; paper2 = papers ! j;
                commonWords = filter (\<lambda>word. word \<in> set (titleWords paper2)) (titleWords paper1)
            in if length (sharedAuthorsLoose paper1 paper2) > 0
               then innerLoop rnd papers i (Suc j) (Suc cnt)
                      (connections @ [connection papers i j ''shared_author'' (8 / 10)]) n
               else if year_truthy paper1 \<and> year_truthy paper2 \<and>
                       \<bar>year_or_2024 paper1 - year_or_2024 paper2\<bar> \<le> 1
               then innerLoop rnd papers i (Suc j) (Suc cnt)
                      (connections @ [connection papers i j ''temporal_proximity'' (4 / 10)]) n
               else if length commonWords \<ge> 2
               then innerLoop rnd papers i (Suc j) (Suc cnt)
                      (connections @
                       [connection papers i j ''title_overlap''
                          (min (7 / 10) (of_nat (length commonWords) * (15 / 100)))]) n
               else if cnt = 0
               then (if rnd n < 1 / 100 \<and> 2 * j > 2 * i + length papers
                     then innerLoop rnd papers i (Suc j) (Suc cnt)
                            (connections @ [connection papers i j ''random_link'' (1 / 10)])
                            (Suc n)
                     else innerLoop rnd papers i (Suc j) cnt connections (Suc n))
               else innerLoop rnd papers i (Suc j) cnt connections n)
      else (connections, n))"
  by pat_completeness auto
termination
  by (relation "measure (\<lambda>(rnd, papers, i, j, cnt, connections, n). length papers - j)") auto

declare innerLoop.simps [simp del]

function outerLoop ::
  "random_source \<Rightarrow> Paper list \<Rightarrow> nat \<Rightarrow> GraphConnection list \<Rightarrow> nat \<Rightarrow>
   GraphConnection list \<times> nat" where
  "outerLoop rnd papers i connections n =
     (if i < length papers \<and> length connections < min 1000 (length papers * 2)
      then (case innerLoop rnd papers i (Suc i) 0 connections n of
              (connections', n') \<Rightarrow> outerLoop rnd papers (Suc i) connections' n')
      else (connections, n))"
  by pat_completeness auto
termination
  by (relation "measure (\<lambda>(rnd, papers, i, connections, n). length papers - i)") auto

declare outerLoop.simps [simp del]

definition generateGraphConnections ::
  "random_source \<Rightarrow> Paper list \<Rightarrow> nat \<Rightarrow> GraphConnection list \<times> nat" where
  "generateGraphConnections rnd papers n = outerLoop rnd papers 0 [] n"

subsection \<open>\<open>optimizePapersForFrontend\<close>\<close>

text \<open>
  The fields that the function copies from keys outside the \<open>Paper\<close> interface (\<open>url\<close>,
  \<open>localFilePath\<close>, \<open>fileSize\<close> and the like) are left out.
\<close>

record GraphNode =
  node_id :: string
  node_title :: string
  node_authors :: "string list"
  node_year :: "int option"
  node_citationCount :: int
  node_abstract :: string
  node_venue :: string

definition optimizePaper :: "Paper \<Rightarrow> string \<Rightarrow> GraphNode" where
  "optimizePaper paper fallbackId =
     \<lparr>node_id = (if id' paper = [] then fallbackId else id' paper),
      node_title = (if title paper = [] then ''Untitled Paper'' else title paper),
      node_authors = take 3 (authors paper),
      node_year = (if year_truthy paper then year paper else None),
      node_citationCount = citationCount_or_0 paper,
      node_abstract =
        (if abstract_or_empty paper = [] then ''No abstract available''
         else take 300 (abstract_or_empty paper) @
              (if length (abstract_or_empty paper) > 300 then ''...'' else [])),
      node_venue =
        (case venue paper of
           None \<Rightarrow> ''Unknown Venue''
         | Some v \<Rightarrow> if v = [] then ''Unknown Venue'' else v)\<rparr>"

text \<open>
  \<open>papers.map((paper, index) => ...)\<close>; the clock is read only for a paper whose id is
  empty, by \<open>paper.id || `paper-${Date.now()}-${index}`\<close>.
\<close>

fun optimizeLoop :: "clock \<Rightarrow> Paper list \<Rightarrow> nat \<Rightarrow> nat \<Rightarrow> GraphNode list \<times> nat" where
  "optimizeLoop clk [] index t = ([], t)"
| "optimizeLoop clk (paper # papers) index t =
     (if id' paper = []
      then (case optimizeLoop clk papers (Suc index) (Suc t) of
              (nodes, t') \<Rightarrow>
                (optimizePaper paper
                   (''paper-'' @ number_toString (clk t) @ ''-'' @ digits (int index)) # nodes, t'))
      else (case optimizeLoop clk papers (Suc index) t of
              (nodes, t') \<Rightarrow> (optimizePaper paper [] # nodes, t')))"

definition optimizePapersForFrontend :: "clock \<Rightarrow> Paper list \<Rightarrow> nat \<Rightarrow> GraphNode list \<times> nat" where
  "optimizePapersForFrontend clk papers t = optimizeLoop clk papers 0 t"

subsection \<open>The handler\<close>

record GraphData =
  topic :: string
  relationshipsFromService :: "PaperRelationship list"
  graphNodes :: "GraphNode list"
  graphEdges :: "GraphConnection list"
  databaseStored :: bool
  totalPapersProvided :: nat
  papersInGraph :: nat
  cached :: bool

record ResponseData =
  success :: bool
  message :: string
  data' :: GraphData

text \<open>
  A response is a status code and a JSON body: the graph (\<open>res.json(responseData)\<close>, status
  200) or a failure with its message and, from the \<open>catch\<close> block, the error caught.
\<close>

datatype ResponseBody = Built ResponseData | Failed string "error option"

datatype HttpResponse = Response nat ResponseBody

text \<open>
  \<open>body_papers\<close> is \<open>None\<close> when \<open>req.body.papers\<close> is missing or is not an array.
\<close>

record RequestBody =
  body_papers :: "Paper list option"
  body_topic :: "string option"

record ServerState =
  graphCache :: "ResponseData InstantCache"
  rndPos :: nat
  clkPos :: nat

fun join :: "string \<Rightarrow> string list \<Rightarrow> string" where
  "join sep [] = []"
| "join sep [x] = x"
| "join sep (x # y # ys) = x @ sep @ join sep (y # ys)"

definition currentTopicOf :: "RequestBody \<Rightarrow> string" where
  "currentTopicOf b =
     (case body_topic b of
        None \<Rightarrow> ''research_graph_topic''
      | Some t \<Rightarrow> if t = [] then ''research_graph_topic'' else t)"

definition cacheKeyOf :: "string \<Rightarrow> Paper list \<Rightarrow> string" where
  "cacheKeyOf currentTopic papers =
     take 100 (''graph_'' @ currentTopic @ ''_'' @ join ''_'' (sort (map id' papers)))"

definition toConnection :: "PaperRelationship \<Rightarrow> GraphConnection" where
  "toConnection rel =
     \<lparr>conn_source = sourceId rel, conn_target = targetId rel,
      conn_type = type_name (relationshipType rel),
      conn_strength = (if strength rel = 0 then 5 / 10 else strength rel)\<rparr>"

text \<open>\<open>{...cachedGraph, data: {...cachedGraph.data, cached: true}}\<close>\<close>

definition mark_cached :: "ResponseData \<Rightarrow> ResponseData" where
  "mark_cached g = g\<lparr>data' := (data' g)\<lparr>cached := True\<rparr>\<rparr>"

definition rejected :: HttpResponse where
  "rejected = Response 400 (Failed ''Papers array (non-empty) is required'' None)"

text \<open>
  The part of the handler after a cache miss. The write to the graph store
  (\<open>neo4jService.storeResearchGraph\<close>) is awaited with its rejection caught and logged; it
  does not change the response and is left out.
\<close>

definition buildFresh ::
  "random_source \<Rightarrow> clock \<Rightarrow> ServerState \<Rightarrow> string \<Rightarrow> string \<Rightarrow> Paper list \<Rightarrow>
   HttpResponse \<times> ServerState" where
  "buildFresh rnd clk s currentTopic cacheKey papers =
     (let limitedPapers = take 500 papers
      in case analyzeRelationships rnd (rndPos s) limitedPapers of
           (Inl e, r1) \<Rightarrow>
             (Response 500 (Failed ''Error building knowledge graph'' (Some e)),
              s\<lparr>rndPos := r1\<rparr>)
         | (Inr relationships, r1) \<Rightarrow>
             (case generateGraphConnections rnd limitedPapers r1 of
                (additionalConnections, r2) \<Rightarrow>
                  (let allConnections = map toConnection relationships @ additionalConnections
                   in case optimizePapersForFrontend clk limitedPapers (clkPos s) of
                        (nodes, t2) \<Rightarrow>
                          (let responseData =
                                 \<lparr>success = True,
                                  message =
                                    ''Knowledge graph built with '' @
                                    digits (int (length limitedPapers)) @ '' nodes and '' @
                                    digits (int (length allConnections)) @ '' connections'',
                                  data' =
                                    \<lparr>topic = currentTopic,
                                     relationshipsFromService = relationships,
                                     graphNodes = nodes,
                                     graphEdges = allConnections,
                                     databaseStored = True,
                                     totalPapersProvided = length papers,
                                     papersInGraph = length limitedPapers,
                                     cached = False\<rparr>\<rparr>
                           in case cache_set clk t2 (graphCache s) cacheKey responseData 60 of
                                (c2, t3) \<Rightarrow>
                                  (Response 200 (Built responseData),
                                   s\<lparr>graphCache := c2, rndPos := r2, clkPos := t3\<rparr>)))))"

definition build_knowledge_graph ::
  "random_source \<Rightarrow> clock \<Rightarrow> ServerState \<Rightarrow> RequestBody \<Rightarrow> HttpResponse \<times> ServerState" where
  "build_knowledge_graph rnd clk s b =
     (case body_papers b of
        None \<Rightarrow> (rejected, s)
      | Some papers \<Rightarrow>
          if papers = [] then (rejected, s)
          else (let currentTopic = currentTopicOf b;
                    cacheKey = cacheKeyOf currentTopic papers
                in case cache_get clk (clkPos s) (graphCache s) cacheKey of
                     (Some cachedGraph, c1, t1) \<Rightarrow>
                       (Response 200 (Built (mark_cached cachedGraph)),
                        s\<lparr>graphCache := c1, clkPos := t1\<rparr>)
                   | (None, c1, t1) \<Rightarrow>
                       buildFresh rnd clk (s\<lparr>graphCache := c1, clkPos := t1\<rparr>)
                         currentTopic cacheKey papers))"


section \<open>Notions used to state the properties\<close>

text \<open>The relationships that the four detectors before the citation detector contribute.\<close>

definition nonCitationEdges :: "random_source \<Rightarrow> nat \<Rightarrow> Paper list \<Rightarrow> PaperRelationship list" where
  "nonCitationEdges rnd n papers =
     (let sampledPapers = sampledPapersOf papers;
          (fromVenues, n1) = findVenueRelationships rnd sampledPapers (buildVenueIndex papers) n;
          (fromYears, n2) = findTemporalRelationships rnd sampledPapers n1
      in findAuthorRelationships sampledPapers (buildAuthorIndex papers) @ fromVenues @
         findContentRelationships sampledPapers (buildKeywordIndex papers) @ fromYears)"

text \<open>Two relationships with the same unordered pair of ids and the same type.\<close>

definition same_pair_and_type :: "PaperRelationship \<Rightarrow> PaperRelationship \<Rightarrow> bool" where
  "same_pair_and_type r r' =
     (relationshipType r = relationshipType r' \<and>
      (sourceId r = sourceId r' \<and> targetId r = targetId r' \<or>
       sourceId r = targetId r' \<and> targetId r = sourceId r'))"

text \<open>The key the specification gives to a relationship: the unordered pair and the type.\<close>

definition ukey :: "PaperRelationship \<Rightarrow> string set \<times> RelationshipType" where
  "ukey r = ({sourceId r, targetId r}, relationshipType r)"

text \<open>Every paper stored in an index belongs to a given set of papers.\<close>

definition index_within :: "paper_index \<Rightarrow> Paper set \<Rightarrow> bool" where
  "index_within idx S = (\<forall>k ps. idx k = Some ps \<longrightarrow> set ps \<subseteq> S)"

definition referenceIds :: "Paper \<Rightarrow> string list" where
  "referenceIds p = (case references p of Items xs \<Rightarrow> xs | Absent \<Rightarrow> [] | NotAnArray \<Rightarrow> [])"

definition citedByIds :: "Paper \<Rightarrow> string list" where
  "citedByIds p = (case citations p of Items xs \<Rightarrow> xs | Absent \<Rightarrow> [] | NotAnArray \<Rightarrow> [])"

text \<open>Neither id of the relationship contains a hyphen.\<close>

definition hyphen_free :: "PaperRelationship \<Rightarrow> bool" where
  "hyphen_free r = (CHR ''-'' \<notin> set (sourceId r) \<and> CHR ''-'' \<notin> set (targetId r))"

text \<open>A run of \<open>set\<close> calls on a cache, each with a time to live of 60 minutes.\<close>

fun cache_sets ::
  "clock \<Rightarrow> nat \<Rightarrow> 'a InstantCache \<Rightarrow> (string \<times> 'a) list \<Rightarrow> 'a InstantCache \<times> nat" where
  "cache_sets clk t c [] = (c, t)"
| "cache_sets clk t c (kd # rest) =
     (case cache_set clk t c (fst kd) (snd kd) 60 of (c', t') \<Rightarrow> cache_sets clk t' c' rest)"

text \<open>The key of a request, as the handler computes it.\<close>

definition requestKey :: "RequestBody \<Rightarrow> string" where
  "requestKey b =
     cacheKeyOf (currentTopicOf b) (case body_papers b of None \<Rightarrow> [] | Some ps \<Rightarrow> ps)"

text \<open>Requests served one after the other, each on the state that the one before has left.\<close>

fun serve :: "random_source \<Rightarrow> clock \<Rightarrow> ServerState \<Rightarrow> RequestBody list \<Rightarrow> ServerState" where
  "serve rnd clk s [] = s"
| "serve rnd clk s (b # bs) = serve rnd clk (snd (build_knowledge_graph rnd clk s b)) bs"


section \<open>Example inputs\<close>

text \<open>Random sources: one that keeps no sampled edge, one that keeps all; three clocks.\<close>

definition rnd_low :: random_source where
  "rnd_low n = 0"

definition rnd_high :: random_source where
  "rnd_high n = 9 / 10"

definition clock_zero :: clock where
  "clock_zero t = 0"

definition clock_seconds :: clock where
  "clock_seconds t = 1000 * int t"

definition clock_ms :: clock where
  "clock_ms t = int t"

definition examplePaper :: "string \<Rightarrow> string list \<Rightarrow> int \<Rightarrow> int \<Rightarrow> Paper" where
  "examplePaper i as y c =
     \<lparr>id' = i, title = ''t'', authors = as, abstract = None, year = Some y, venue = None,
      citationCount = Some c, references = Absent, citations = Absent\<rparr>"

text \<open>Four papers, three of one year; \<open>D\<close> shares an author with \<open>A\<close> and is not sampled.\<close>

definition sharedAuthorPapers :: "Paper list" where
  "sharedAuthorPapers =
     [examplePaper ''A'' [''x''] 2020 9, examplePaper ''B'' [] 2020 5,
      examplePaper ''D'' [''x''] 2020 1, examplePaper ''C'' [] 2021 0]"

text \<open>Two papers with a common author; the \<open>references\<close> of the second are not an array.\<close>

definition malformedPapers :: "Paper list" where
  "malformedPapers =
     [examplePaper ''A'' [''x''] 2020 0,
      (examplePaper ''B'' [''x''] 2020 0)\<lparr>references := NotAnArray\<rparr>]"

text \<open>Paper \<open>X\<close> lists \<open>Y\<close> among the papers that cite it.\<close>

definition citedPapers :: "Paper list" where
  "citedPapers =
     [(examplePaper ''X'' [] 2020 0)\<lparr>citations := Items [''Y'']\<rparr>, examplePaper ''Y'' [] 2021 0]"

definition duplicateIdPapers :: "Paper list" where
  "duplicateIdPapers = [examplePaper ''a'' [] 2020 0, examplePaper ''a'' [] 2020 0]"

definition selfCitingPaper :: Paper where
  "selfCitingPaper = (examplePaper ''P'' [] 2020 0)\<lparr>references := Items [''P'']\<rparr>"

text \<open>Four papers of one author whose ids contain hyphens.\<close>

definition hyphenPapers :: "Paper list" where
  "hyphenPapers =
     [examplePaper ''a-b'' [''x''] 2020 0, examplePaper ''c'' [''x''] 2020 0,
      examplePaper ''a'' [''x''] 2020 0, examplePaper ''b-c'' [''x''] 2020 0]"

definition key_no :: "nat \<Rightarrow> string" where
  "key_no i = replicate (Suc i) (CHR ''k'')"

definition manyKeys :: "nat \<Rightarrow> (string \<times> unit) list" where
  "manyKeys n = map (\<lambda>i. (key_no i, ())) [0..<n]"

definition freshItem :: "unit CacheItem" where
  "freshItem = \<lparr>data = (), timestamp = 0, ttl = 60 * 60 * 1000\<rparr>"

definition emptyServer :: ServerState where
  "emptyServer = \<lparr>graphCache = [], rndPos = 0, clkPos = 0\<rparr>"

definition exampleRequest :: RequestBody where
  "exampleRequest =
     \<lparr>body_papers = Some [examplePaper ''A'' [''x''] 2020 9, examplePaper ''B'' [''x''] 2010 5],
      body_topic = Some ''ml''\<rparr>"

definition emptyRequest :: RequestBody where
  "emptyRequest = \<lparr>body_papers = Some [], body_topic = Some ''ml''\<rparr>"


text \<open>A relationship, field by field.\<close>

definition rel ::
  "string \<Rightarrow> string \<Rightarrow> RelationshipType \<Rightarrow> rat \<Rightarrow> Metadata \<Rightarrow> PaperRelationship" where
  "rel s t ty st md =
     \<lparr>sourceId = s, targetId = t, relationshipType = ty, strength = st, metadata = md\<rparr>"

text \<open>The response to \<open>exampleRequest\<close> on an empty cache, and the server state after it.\<close>

definition exampleResponse :: ResponseData where
  "exampleResponse =
     \<lparr>success = True,
      message = ''Knowledge graph built with 2 nodes and 2 connections'',
      data' =
        \<lparr>topic = ''ml'',
         relationshipsFromService = [rel ''B'' ''A'' Author (3 / 10) (AuthorOverlap [''x''])],
         graphNodes =
           [\<lparr>node_id = ''A'', node_title = ''t'', node_authors = [''x''],
             node_year = Some 2020, node_citationCount = 9,
             node_abstract = ''No abstract available'', node_venue = ''Unknown Venue''\<rparr>,
            \<lparr>node_id = ''B'', node_title = ''t'', node_authors = [''x''],
             node_year = Some 2010, node_citationCount = 5,
             node_abstract = ''No abstract available'', node_venue = ''Unknown Venue''\<rparr>],
         graphEdges =
           [\<lparr>conn_source = ''B'', conn_target = ''A'', conn_type = ''author'',
             conn_strength = 3 / 10\<rparr>,
            \<lparr>conn_source = ''A'', conn_target = ''B'', conn_type = ''shared_author'',
             conn_strength = 8 / 10\<rparr>],
         databaseStored = True, totalPapersProvided = 2, papersInGraph = 2,
         cached = False\<rparr>\<rparr>"

definition exampleItem :: "ResponseData CacheItem" where
  "exampleItem = \<lparr>data = exampleResponse, timestamp = 0, ttl = 3600000\<rparr>"

definition serverAfter :: ServerState where
  "serverAfter = \<lparr>graphCache = [(''graph_ml_A_B'', exampleItem)], rndPos = 0, clkPos = 1\<rparr>"

definition malformedRequest :: RequestBody where
  "malformedRequest = \<lparr>body_papers = Some malformedPapers, body_topic = None\<rparr>"

text \<open>
  Requests of one paper \<open>Z\<close> with pairwise different topics of at most 64 characters, and
  the server after the first \<open>k\<close> of them have been served on \<open>serverAfter\<close>, the
  clock advancing by a millisecond at every reading.
\<close>

definition topic_no :: "nat \<Rightarrow> string" where
  "topic_no i =
     CHR ''t'' # replicate (i div 484) (CHR ''u'') @ replicate (i div 22 mod 22) (CHR ''v'') @
     replicate (i mod 22) (CHR ''w'')"

definition otherRequest :: "nat \<Rightarrow> RequestBody" where
  "otherRequest i =
     \<lparr>body_papers = Some [examplePaper ''Z'' [] 2020 0], body_topic = Some (topic_no i)\<rparr>"

definition serverFlooded :: "nat \<Rightarrow> ServerState" where
  "serverFlooded k = serve rnd_low clock_ms serverAfter (map otherRequest [0..<k])"

definition floodedServer :: ServerState where
  "floodedServer = serverFlooded (Suc maxSize)"


section \<open>Properties of the sampler\<close>

lemma group_push_total:
  "sum_list (map (\<lambda>kv. length (snd kv)) (group_push g y p)) = Suc (sum_list (map (\<lambda>kv. length (snd kv)) g))"
  by (induction g y p rule: group_push.induct) auto

lemma group_push_keys: "set (map fst (group_push g y p)) = insert y (set (map fst g))"
  by (induction g y p rule: group_push.induct) auto

lemma group_push_distinct: "distinct (map fst g) \<Longrightarrow> distinct (map fst (group_push g y p))"
proof (induction g y p rule: group_push.induct)
  case (1 y p)
  then show ?case by simp
next
  case (2 k ps g y p)
  then show ?case using group_push_keys [of g y p] by auto
qed

lemma group_push_members:
  "(\<Union>kv\<in>set (group_push g y p). set (snd kv)) = insert p (\<Union>kv\<in>set g. set (snd kv))"
  by (induction g y p rule: group_push.induct) auto

lemma foldl_group_push_total:
  "sum_list (map (\<lambda>kv. length (snd kv)) (foldl (\<lambda>g p. group_push g (f p) p) g0 papers))
     = length papers + sum_list (map (\<lambda>kv. length (snd kv)) g0)"
  by (induction papers arbitrary: g0) (simp_all add: group_push_total)

lemma foldl_group_push_distinct:
  "distinct (map fst g0) \<Longrightarrow> distinct (map fst (foldl (\<lambda>g p. group_push g (f p) p) g0 papers))"
  by (induction papers arbitrary: g0) (simp_all add: group_push_distinct)

lemma foldl_group_push_members:
  "(\<Union>kv\<in>set (foldl (\<lambda>g p. group_push g (f p) p) g0 papers). set (snd kv))
     = set papers \<union> (\<Union>kv\<in>set g0. set (snd kv))"
  by (induction papers arbitrary: g0) (simp_all add: group_push_members)

lemma yearGroups_total: "sum_list (map (\<lambda>kv. length (snd kv)) (yearGroups papers)) = length papers"
  by (simp add: yearGroups_def foldl_group_push_total)

lemma yearGroups_distinct: "distinct (map fst (yearGroups papers))"
  by (simp add: yearGroups_def foldl_group_push_distinct)

lemma yearGroups_members: "(\<Union>kv\<in>set (yearGroups papers). set (snd kv)) = set papers"
  by (simp add: yearGroups_def foldl_group_push_members)

lemma group_get_distinct:
  "distinct (map fst g) \<Longrightarrow> map (\<lambda>y. length (group_get g y)) (map fst g) = map (\<lambda>kv. length (snd kv)) g"
proof -
  assume d: "distinct (map fst g)"
  have "group_get g (fst kv) = snd kv" if "kv \<in> set g" for kv
  proof -
    have "map_of g (fst kv) = Some (snd kv)"
      using that d by (intro map_of_is_SomeI) simp_all
    then show ?thesis by (simp add: group_get_def)
  qed
  then show ?thesis by (simp add: comp_def)
qed

lemma group_get_subset: "set (group_get g y) \<subseteq> (\<Union>kv\<in>set g. set (snd kv))"
proof
  fix x assume "x \<in> set (group_get g y)"
  then obtain ps where "map_of g y = Some ps" "x \<in> set ps"
    by (cases "map_of g y") (auto simp: group_get_def)
  then have "(y, ps) \<in> set g" by (simp add: map_of_SomeD)
  with \<open>x \<in> set ps\<close> show "x \<in> (\<Union>kv\<in>set g. set (snd kv))" by force
qed

lemma length_yearSample: "length (yearSample g n y) \<le> length (group_get g y)"
  by (simp add: yearSample_def)

lemma set_yearSample: "set (yearSample g n y) \<subseteq> set (group_get g y)"
  by (auto simp: yearSample_def dest: in_set_takeD)

lemma length_concat_le:
  "(\<And>y. length (f y) \<le> h y) \<Longrightarrow> length (concat (map f ys)) \<le> sum_list (map h ys)"
  by (induction ys) (auto simp: add_mono)

lemma sum_list_sort_key: "sum_list (map h (sort_key k xs)) = sum_list (map (h :: 'a \<Rightarrow> nat) xs)"
proof -
  have "mset (map h (sort_key k xs)) = mset (map h xs)" by simp
  then show ?thesis by (metis sum_mset_sum_list)
qed

lemma length_sample_le_papers:
  "length (concat (map (yearSample (yearGroups papers) n) (sort_key k (map fst (yearGroups papers))))) \<le> length papers"
proof -
  let ?g = "yearGroups papers"
  have "length (concat (map (yearSample ?g n) (sort_key k (map fst ?g))))
      \<le> sum_list (map (\<lambda>y. length (group_get ?g y)) (sort_key k (map fst ?g)))"
    by (rule length_concat_le) (rule length_yearSample)
  also have "\<dots> = sum_list (map (\<lambda>y. length (group_get ?g y)) (map fst ?g))"
    by (rule sum_list_sort_key)
  also have "\<dots> = sum_list (map (\<lambda>kv. length (snd kv)) ?g)"
    by (simp only: group_get_distinct [OF yearGroups_distinct])
  also have "\<dots> = length papers" by (rule yearGroups_total)
  finally show ?thesis .
qed

lemma set_stratifiedSample: "set (stratifiedSample papers n) \<subseteq> set papers"
proof -
  have "set (yearSample (yearGroups papers) m y) \<subseteq> set papers" for m y
    using set_yearSample [of "yearGroups papers" m y] group_get_subset [of "yearGroups papers" y]
    unfolding yearGroups_members by (rule subset_trans)
  then have "set (concat (map (yearSample (yearGroups papers) m) ys)) \<subseteq> set papers" for m ys
    by auto
  then show ?thesis
    unfolding stratifiedSample_def Let_def using set_take_subset by fast
qed

section \<open>Properties of the deduplicator and the ranker\<close>

lemma set_dedupLoop: "set (dedupLoop seen rels) \<subseteq> set rels"
  by (induction rels arbitrary: seen) auto

lemma set_deduplicateRelationships: "set (deduplicateRelationships rels) \<subseteq> set rels"
  by (simp add: deduplicateRelationships_def set_dedupLoop)

lemma mset_rankRelationships: "mset (rankRelationships rels) = mset rels"
  by (simp add: rankRelationships_def)

lemma set_rankRelationships: "set (rankRelationships rels) = set rels"
  by (simp add: rankRelationships_def)

section \<open>Shape of the result of \<open>analyzeRelationships\<close>\<close>

lemma analyzeRelationships_Inr:
  assumes "fst (analyzeRelationships rnd n papers) = Inr rels"
  shows "\<exists>cit. findCitationRelationships (sampledPapersOf papers) = Inr cit \<and>
           rels = take 200 (rankRelationships (deduplicateRelationships
                    (nonCitationEdges rnd n papers @ cit)))"
  using assms
  by (auto simp: analyzeRelationships_def nonCitationEdges_def Let_def
           split: prod.splits sum.splits)

lemma analyzeRelationships_Inl:
  "fst (analyzeRelationships rnd n papers) = Inl e \<longleftrightarrow>
   findCitationRelationships (sampledPapersOf papers) = Inl e"
  by (auto simp: analyzeRelationships_def Let_def split: prod.splits sum.splits)

lemma analyzeRelationships_subset:
  assumes "fst (analyzeRelationships rnd n papers) = Inr rels"
  obtains cit where "findCitationRelationships (sampledPapersOf papers) = Inr cit"
    and "set rels \<subseteq> set (nonCitationEdges rnd n papers) \<union> set cit"
proof -
  from analyzeRelationships_Inr [OF assms] obtain cit where
    c: "findCitationRelationships (sampledPapersOf papers) = Inr cit" and
    r: "rels = take 200 (rankRelationships (deduplicateRelationships
                    (nonCitationEdges rnd n papers @ cit)))" by blast
  have "set rels \<subseteq> set (rankRelationships (deduplicateRelationships
                    (nonCitationEdges rnd n papers @ cit)))"
    unfolding r by (rule set_take_subset)
  also have "\<dots> \<subseteq> set (nonCitationEdges rnd n papers @ cit)"
    unfolding set_rankRelationships by (rule set_deduplicateRelationships)
  finally show thesis using c that by simp
qed

section \<open>Properties of the indexes\<close>

lemma index_within_empty: "index_within Map.empty S"
  by (simp add: index_within_def)

lemma index_within_get: "index_within idx S \<Longrightarrow> set (index_get idx k) \<subseteq> S"
  by (cases "idx k") (simp_all add: index_within_def index_get_def)

lemma index_push_get: "index_push idx k p = idx(k \<mapsto> index_get idx k @ [p])"
  by (simp add: index_push_def index_get_def)

lemma index_within_push:
  assumes "index_within idx S" and "p \<in> S"
  shows "index_within (index_push idx k p) S"
  unfolding index_within_def
proof (intro allI impI)
  fix k' ps
  assume h: "index_push idx k p k' = Some ps"
  show "set ps \<subseteq> S"
  proof (cases "k' = k")
    case True
    with h have "ps = index_get idx k @ [p]" by (simp add: index_push_get)
    then show ?thesis using index_within_get [OF assms(1), of k] assms(2) by simp
  next
    case False
    with h have "idx k' = Some ps" by (simp add: index_push_get)
    then show ?thesis using assms(1) by (simp add: index_within_def)
  qed
qed

lemma foldl_index_push_within:
  "index_within idx S \<Longrightarrow> p \<in> S \<Longrightarrow> index_within (foldl (\<lambda>idx k. index_push idx (f k) p) idx ks) S"
  by (induction ks arbitrary: idx) (simp_all add: index_within_push)

lemma foldl_within:
  assumes "index_within idx0 S"
    and "\<And>idx p. index_within idx S \<Longrightarrow> p \<in> S \<Longrightarrow> index_within (step idx p) S"
    and "set ps \<subseteq> S"
  shows "index_within (foldl step idx0 ps) S"
  using assms(1,3)
proof (induction ps arbitrary: idx0)
  case Nil
  then show ?case by simp
next
  case (Cons p ps)
  then show ?case using assms(2) by simp
qed

lemma buildAuthorIndex_within: "index_within (buildAuthorIndex papers) (set papers)"
  unfolding buildAuthorIndex_def
  by (rule foldl_within) (simp_all add: index_within_empty foldl_index_push_within)

lemma buildVenueIndex_within: "index_within (buildVenueIndex papers) (set papers)"
  unfolding buildVenueIndex_def
proof (rule foldl_within)
  show "index_within Map.empty (set papers)" by (rule index_within_empty)
next
  fix idx :: paper_index and p
  assume "index_within idx (set papers)" "p \<in> set papers"
  then show "index_within (case venue p of None \<Rightarrow> idx
       | Some v \<Rightarrow> if v = [] then idx else index_push idx (trim (toLowerCase v)) p) (set papers)"
    by (cases "venue p") (simp_all add: index_within_push)
qed simp

lemma buildKeywordIndex_within: "index_within (buildKeywordIndex papers) (set papers)"
  unfolding buildKeywordIndex_def
  by (rule foldl_within) (simp_all add: index_within_empty foldl_index_push_within)

section \<open>Properties of the detectors\<close>

lemma authorEdge_props:
  "r \<in> set (authorEdge p otherPaper) \<Longrightarrow>
     relationshipType r = Author \<and> sourceId r = id' p \<and> targetId r = id' otherPaper \<and>
     sourceId r \<noteq> targetId r"
  by (auto simp: authorEdge_def Let_def split: if_splits)

lemma findAuthorRelationships_props:
  assumes "r \<in> set (findAuthorRelationships ps idx)" and "index_within idx S"
  shows "relationshipType r = Author \<and> sourceId r \<in> id' ` set ps \<and> targetId r \<in> id' ` S \<and>
         sourceId r \<noteq> targetId r"
proof -
  from assms(1) obtain p a otherPaper where
    "p \<in> set ps" "otherPaper \<in> set (index_get idx (toLowerCase a))" "r \<in> set (authorEdge p otherPaper)"
    by (auto simp: findAuthorRelationships_def)
  moreover have "otherPaper \<in> S"
    using index_within_get [OF assms(2)] calculation(2) by blast
  ultimately show ?thesis using authorEdge_props [of r p otherPaper] by auto
qed

lemma venueEdges_props:
  "r \<in> set (fst (venueEdges rnd p others n)) \<Longrightarrow>
     relationshipType r = Venue \<and> sourceId r = id' p \<and> targetId r \<in> id' ` set others \<and>
     sourceId r \<noteq> targetId r"
proof (induction others arbitrary: n)
  case Nil
  then show ?case by simp
next
  case (Cons otherPaper rest)
  show ?case
  proof (cases "id' p \<noteq> id' otherPaper")
    case True
    with Cons.prems have
      "r \<in> set (fst (venueEdges rnd p rest (Suc n))) \<or>
       (relationshipType r = Venue \<and> sourceId r = id' p \<and> targetId r = id' otherPaper)"
      by (auto simp: Let_def case_prod_beta split: if_splits)
    then show ?thesis using Cons.IH [of "Suc n"] True by auto
  next
    case False
    with Cons.prems have "r \<in> set (fst (venueEdges rnd p rest n))" by simp
    then show ?thesis using Cons.IH [of n] by auto
  qed
qed

lemma findVenueRelationships_props:
  assumes "index_within idx S"
  shows "r \<in> set (fst (findVenueRelationships rnd ps idx n)) \<Longrightarrow>
         relationshipType r = Venue \<and> sourceId r \<in> id' ` set ps \<and> targetId r \<in> id' ` S \<and>
         sourceId r \<noteq> targetId r"
proof (induction ps arbitrary: n)
  case Nil
  then show ?case by simp
next
  case (Cons p ps)
  let ?first = "case venue p of None \<Rightarrow> ([], n)
     | Some v \<Rightarrow> if v = [] then ([], n) else venueEdges rnd p (index_get idx (toLowerCase v)) n"
  from Cons.prems have
    "r \<in> set (fst ?first) \<or> r \<in> set (fst (findVenueRelationships rnd ps idx (snd ?first)))"
    by (auto simp: Let_def case_prod_beta)
  then show ?case
  proof
    assume "r \<in> set (fst ?first)"
    then obtain v where "r \<in> set (fst (venueEdges rnd p (index_get idx (toLowerCase v)) n))"
      by (cases "venue p") (auto split: if_splits)
    from venueEdges_props [OF this] index_within_get [OF assms, of "toLowerCase v"]
    show ?thesis by auto
  next
    assume "r \<in> set (fst (findVenueRelationships rnd ps idx (snd ?first)))"
    from Cons.IH [OF this] show ?thesis by auto
  qed
qed

lemma count_up_keys: "fst ` set (count_up m k) = insert k (fst ` set m)"
  by (induction m k rule: count_up.induct) auto

lemma relatedPapersOf_keys: "k \<in> fst ` set (relatedPapersOf p idx) \<Longrightarrow> k \<noteq> id' p"
proof -
  let ?inner = "\<lambda>m otherPaper. if id' p \<noteq> id' otherPaper then count_up m (id' otherPaper) else m"
  have inner: "id' p \<notin> fst ` set m \<Longrightarrow> id' p \<notin> fst ` set (foldl ?inner m others)"
    for m :: "(string \<times> nat) list" and others
  proof (induction others arbitrary: m)
    case Nil
    then show ?case by simp
  next
    case (Cons otherPaper others)
    have "id' p \<notin> fst ` set (?inner m otherPaper)"
      using Cons.prems by (cases "id' p = id' otherPaper") (simp_all add: count_up_keys)
    from Cons.IH [OF this] show ?case by simp
  qed
  have outer: "id' p \<notin> fst ` set m \<Longrightarrow>
      id' p \<notin> fst ` set (foldl (\<lambda>m keyword. foldl ?inner m (index_get idx keyword)) m kws)"
    for m :: "(string \<times> nat) list" and kws
  proof (induction kws arbitrary: m)
    case Nil
    then show ?case by simp
  next
    case (Cons kw kws)
    from Cons.IH [OF inner [OF Cons.prems, of "index_get idx kw"]] show ?case by simp
  qed
  have "id' p \<notin> fst ` set (relatedPapersOf p idx)"
    unfolding relatedPapersOf_def by (rule outer) simp
  moreover assume "k \<in> fst ` set (relatedPapersOf p idx)"
  ultimately show ?thesis by blast
qed

lemma contentEdge_props:
  "r \<in> set (contentEdge ps p entry) \<Longrightarrow>
     relationshipType r = Content \<and> sourceId r = id' p \<and> targetId r = fst entry \<and>
     targetId r \<in> set (map id' ps)"
  by (cases entry) (auto simp del: set_map simp: contentEdge_def split: if_splits)

lemma findContentRelationships_props:
  assumes "r \<in> set (findContentRelationships ps idx)"
  shows "relationshipType r = Content \<and> sourceId r \<in> id' ` set ps \<and>
         targetId r \<in> id' ` set ps \<and> sourceId r \<noteq> targetId r"
proof -
  from assms obtain p entry where
    h: "p \<in> set ps" "entry \<in> set (relatedPapersOf p idx)" "r \<in> set (contentEdge ps p entry)"
    by (auto simp: findContentRelationships_def)
  from h(2) have "fst entry \<noteq> id' p" using relatedPapersOf_keys [of "fst entry" p idx] by auto
  moreover have "id' p \<in> id' ` set ps" using h(1) by (rule imageI)
  moreover have "targetId r \<in> id' ` set ps" using contentEdge_props [OF h(3)] by (metis set_map)
  ultimately show ?thesis using contentEdge_props [OF h(3)] by simp
qed

lemma temporalEdges_props:
  "r \<in> set (fst (temporalEdges rnd p others n)) \<Longrightarrow>
     relationshipType r = Temporal \<and> sourceId r = id' p \<and> targetId r \<in> id' ` set others"
proof (induction others arbitrary: n)
  case Nil
  then show ?case by simp
next
  case (Cons otherPaper rest)
  from Cons.prems have
    "r \<in> set (fst (temporalEdges rnd p rest (Suc n))) \<or>
     (relationshipType r = Temporal \<and> sourceId r = id' p \<and> targetId r = id' otherPaper)"
    by (auto simp: Let_def case_prod_beta split: if_splits)
  then show ?case using Cons.IH [of "Suc n"] by auto
qed

lemma findTemporalRelationships_props:
  "r \<in> set (fst (findTemporalRelationships rnd ps n)) \<Longrightarrow>
     relationshipType r = Temporal \<and> sourceId r \<in> id' ` set ps \<and> targetId r \<in> id' ` set ps \<and>
     (distinct (map id' ps) \<longrightarrow> sourceId r \<noteq> targetId r)"
proof (induction ps arbitrary: n)
  case Nil
  then show ?case by simp
next
  case (Cons p later)
  let ?first = "if year_truthy p \<and> later \<noteq> []
     then temporalEdges rnd p (take 3 (contemporaryPapers p later)) n else ([], n)"
  from Cons.prems have
    "r \<in> set (fst ?first) \<or> r \<in> set (fst (findTemporalRelationships rnd later (snd ?first)))"
    by (auto simp: Let_def case_prod_beta)
  then show ?case
  proof
    assume "r \<in> set (fst ?first)"
    then have "r \<in> set (fst (temporalEdges rnd p (take 3 (contemporaryPapers p later)) n))"
      by (auto split: if_splits)
    from temporalEdges_props [OF this]
    have "relationshipType r = Temporal" "sourceId r = id' p"
      "targetId r \<in> id' ` set (take 3 (contemporaryPapers p later))" by auto
    moreover have "set (take 3 (contemporaryPapers p later)) \<subseteq> set later"
      using set_take_subset [of 3 "contemporaryPapers p later"]
      by (auto simp: contemporaryPapers_def)
    ultimately show ?thesis by auto
  next
    assume "r \<in> set (fst (findTemporalRelationships rnd later (snd ?first)))"
    from Cons.IH [OF this] show ?thesis by auto
  qed
qed

lemma referenceEdges_Inr:
  "referenceEdges ids p = Inr rels \<Longrightarrow>
     rels = map (\<lambda>refId. citationEdge (id' p) refId p) (filter (\<lambda>refId. refId \<in> set ids) (referenceIds p))"
  by (cases "references p") (auto simp: referenceEdges_def referenceIds_def)

lemma citedByEdges_Inr:
  "citedByEdges ids p = Inr rels \<Longrightarrow>
     rels = map (\<lambda>citId. citationEdge citId (id' p) p) (filter (\<lambda>citId. citId \<in> set ids) (citedByIds p))"
  by (cases "citations p") (auto simp: citedByEdges_def citedByIds_def)

lemma citationLoop_Inr:
  "citationLoop ids ps = Inr rels \<Longrightarrow>
     set rels = (\<Union>p\<in>set ps. {citationEdge (id' p) refId p | refId. refId \<in> set (referenceIds p) \<and> refId \<in> set ids}
                          \<union> {citationEdge citId (id' p) p | citId. citId \<in> set (citedByIds p) \<and> citId \<in> set ids})"
proof (induction ps arbitrary: rels)
  case Nil
  then show ?case by simp
next
  case (Cons p ps)
  from Cons.prems obtain refs cits rest where
    h: "referenceEdges ids p = Inr refs" "citedByEdges ids p = Inr cits"
       "citationLoop ids ps = Inr rest" "rels = refs @ cits @ rest"
    by (auto split: sum.splits)
  show ?case
    unfolding h(4) using Cons.IH [OF h(3)] referenceEdges_Inr [OF h(1)] citedByEdges_Inr [OF h(2)]
    by auto
qed

lemma citationLoop_Inl:
  "citationLoop ids ps = Inl e \<longleftrightarrow>
     (\<exists>p\<in>set ps. references p = NotAnArray \<or> citations p = NotAnArray)"
proof (induction ps)
  case Nil
  then show ?case by simp
next
  case (Cons p ps)
  show ?case
    using Cons.IH
    by (cases e; cases "references p"; cases "citations p")
       (auto simp: referenceEdges_def citedByEdges_def split: sum.splits)
qed

lemma citationEdge_sel [simp]:
  "sourceId (citationEdge s t p) = s" "targetId (citationEdge s t p) = t"
  "relationshipType (citationEdge s t p) = Citation" "strength (citationEdge s t p) = 9 / 10"
  by (simp_all add: citationEdge_def)

lemma citation_member:
  assumes "findCitationRelationships sampled = Inr rels"
  shows "r \<in> set rels \<longleftrightarrow>
     (\<exists>p\<in>set sampled.
        (\<exists>refId\<in>set (referenceIds p). refId \<in> set (map id' sampled) \<and>
             r = citationEdge (id' p) refId p) \<or>
        (\<exists>citId\<in>set (citedByIds p). citId \<in> set (map id' sampled) \<and>
             r = citationEdge citId (id' p) p))"
  unfolding citationLoop_Inr [OF assms [unfolded findCitationRelationships_def]] by blast

lemma sqrt_maxComparisons: "223 \<le> sqrt (real maxComparisons) \<and> sqrt (real maxComparisons) < 224"
proof -
  have "(223::real)\<^sup>2 \<le> real maxComparisons" by (simp add: maxComparisons_def power2_eq_square)
  then have a: "223 \<le> sqrt (real maxComparisons)" by (rule real_le_rsqrt)
  have "real maxComparisons < (224::real)\<^sup>2" by (simp add: maxComparisons_def power2_eq_square)
  then have b: "sqrt (real maxComparisons) < 224" by (intro real_less_lsqrt) simp_all
  from a b show ?thesis ..
qed

lemma sampleSizeOf_eq [code]: "sampleSizeOf papers = min (length papers) 223"
proof (cases "length papers \<le> 223")
  case True
  then have "real (length papers) \<le> sqrt (real maxComparisons)"
    using sqrt_maxComparisons by linarith
  then have "min (real (length papers)) (sqrt (real maxComparisons)) = real (length papers)"
    by simp
  with True show ?thesis by (simp add: sampleSizeOf_def)
next
  case False
  then have "sqrt (real maxComparisons) \<le> real (length papers)"
    using sqrt_maxComparisons by linarith
  then have "min (real (length papers)) (sqrt (real maxComparisons)) = sqrt (real maxComparisons)"
    by simp
  moreover have "\<lfloor>sqrt (real maxComparisons)\<rfloor> = 223"
    using sqrt_maxComparisons by (simp add: floor_eq_iff)
  ultimately show ?thesis using False by (simp add: sampleSizeOf_def)
qed

lemma sampledPapersOf_subset: "set (sampledPapersOf papers) \<subseteq> set papers"
  by (simp add: sampledPapersOf_def set_stratifiedSample)

lemma nonCitationEdges_props:
  assumes "r \<in> set (nonCitationEdges rnd n papers)"
  shows "relationshipType r \<in> {Author, Venue, Content, Temporal} \<and>
         sourceId r \<in> id' ` set (sampledPapersOf papers) \<and>
         targetId r \<in> id' ` set papers \<and>
         (relationshipType r \<in> {Content, Temporal} \<longrightarrow>
            targetId r \<in> id' ` set (sampledPapersOf papers)) \<and>
         (relationshipType r \<in> {Author, Venue, Content} \<longrightarrow> sourceId r \<noteq> targetId r) \<and>
         (distinct (map id' (sampledPapersOf papers)) \<longrightarrow> sourceId r \<noteq> targetId r)"
proof -
  let ?S = "sampledPapersOf papers"
  let ?v = "findVenueRelationships rnd ?S (buildVenueIndex papers) n"
  have sub: "id' ` set ?S \<subseteq> id' ` set papers" using sampledPapersOf_subset by blast
  from assms consider
      "r \<in> set (findAuthorRelationships ?S (buildAuthorIndex papers))"
    | "r \<in> set (fst ?v)"
    | "r \<in> set (findContentRelationships ?S (buildKeywordIndex papers))"
    | "r \<in> set (fst (findTemporalRelationships rnd ?S (snd ?v)))"
    by (auto simp: nonCitationEdges_def Let_def case_prod_beta)
  then show ?thesis
  proof cases
    case 1
    from findAuthorRelationships_props [OF 1 buildAuthorIndex_within] show ?thesis by simp
  next
    case 2
    from findVenueRelationships_props [OF buildVenueIndex_within 2] show ?thesis by simp
  next
    case 3
    from findContentRelationships_props [OF 3] sub show ?thesis by auto
  next
    case 4
    from findTemporalRelationships_props [OF 4] sub show ?thesis by auto
  qed
qed

lemma citation_props:
  assumes "findCitationRelationships sampled = Inr cit" and "r \<in> set cit"
  shows "relationshipType r = Citation \<and> sourceId r \<in> id' ` set sampled \<and>
         targetId r \<in> id' ` set sampled"
proof -
  from assms(2) obtain p where p: "p \<in> set sampled" and
    d: "(\<exists>refId\<in>set (referenceIds p). refId \<in> set (map id' sampled) \<and>
             r = citationEdge (id' p) refId p) \<or>
        (\<exists>citId\<in>set (citedByIds p). citId \<in> set (map id' sampled) \<and>
             r = citationEdge citId (id' p) p)"
    unfolding citation_member [OF assms(1)] by blast
  have "id' p \<in> id' ` set sampled" using p by (rule imageI)
  with d show ?thesis by auto
qed

section \<open>The deduplicator keeps one relationship for each unordered pair and type\<close>

lemma ukey_eq_iff: "ukey r = ukey r' \<longleftrightarrow> same_pair_and_type r r'"
  by (auto simp: ukey_def same_pair_and_type_def doubleton_eq_iff)

lemma same_key_strings:
  "ukey r = ukey r' \<Longrightarrow> key1 r = key1 r' \<and> key2 r = key2 r' \<or> key1 r = key2 r' \<and> key2 r = key1 r'"
  by (auto simp: ukey_def key1_def key2_def doubleton_eq_iff)

lemma dedupLoop_not_seen:
  "r \<in> set (dedupLoop seen rels) \<Longrightarrow> key1 r \<notin> seen \<and> key2 r \<notin> seen"
  by (induction rels arbitrary: seen) (auto split: if_splits)

lemma dedupLoop_distinct: "distinct (map ukey (dedupLoop seen rels))"
proof (induction rels arbitrary: seen)
  case Nil
  then show ?case by simp
next
  case (Cons rel rels)
  show ?case
  proof (cases "key1 rel \<notin> seen \<and> key2 rel \<notin> seen")
    case True
    have "ukey rel \<noteq> ukey r" if "r \<in> set (dedupLoop (insert (key1 rel) seen) rels)" for r
      using dedupLoop_not_seen [OF that] same_key_strings [of rel r] by auto
    then show ?thesis using True Cons.IH [of "insert (key1 rel) seen"] by auto
  next
    case False
    then show ?thesis using Cons.IH [of seen] by auto
  qed
qed

lemma dedupLoop_first_seen:
  "r \<in> set (dedupLoop seen rels) \<Longrightarrow>
     \<exists>before after. rels = before @ r # after \<and> ukey r \<notin> ukey ` set before"
proof (induction rels arbitrary: seen)
  case Nil
  then show ?case by simp
next
  case (Cons rel rels)
  show ?case
  proof (cases "r = rel")
    case True
    then have "rel # rels = [] @ r # rels \<and> ukey r \<notin> ukey ` set []" by simp
    then show ?thesis by blast
  next
    case False
    let ?seen' = "if key1 rel \<notin> seen \<and> key2 rel \<notin> seen then insert (key1 rel) seen else seen"
    from Cons.prems False have in_rest: "r \<in> set (dedupLoop ?seen' rels)"
      by (auto split: if_splits)
    from Cons.IH [OF in_rest] obtain before after where
      sp: "rels = before @ r # after" "ukey r \<notin> ukey ` set before" by blast
    have "ukey rel \<noteq> ukey r"
      using dedupLoop_not_seen [OF in_rest] same_key_strings [of rel r]
      by (auto split: if_splits)
    with sp have "rel # rels = (rel # before) @ r # after \<and> ukey r \<notin> ukey ` set (rel # before)"
      by auto
    then show ?thesis by blast
  qed
qed

lemma deduplicate_distinct: "distinct (map ukey (deduplicateRelationships rels))"
  by (simp add: deduplicateRelationships_def dedupLoop_distinct)

lemma rank_distinct:
  "distinct (map ukey (rankRelationships rels)) = distinct (map ukey rels)"
proof -
  have "mset (map ukey (rankRelationships rels)) = mset (map ukey rels)"
    by (simp add: mset_rankRelationships)
  then show ?thesis by (rule mset_eq_imp_distinct_iff)
qed

lemma analyzeRelationships_distinct:
  assumes "fst (analyzeRelationships rnd n papers) = Inr rels"
  shows "distinct (map ukey rels)"
proof -
  from analyzeRelationships_Inr [OF assms] obtain cit where
    r: "rels = take 200 (rankRelationships (deduplicateRelationships
                    (nonCitationEdges rnd n papers @ cit)))" by blast
  show ?thesis unfolding r take_map [symmetric]
    by (intro distinct_take) (simp add: rank_distinct deduplicate_distinct)
qed

lemma analyzeRelationships_first_seen:
  assumes "fst (analyzeRelationships rnd n papers) = Inr rels" and "r \<in> set rels"
  shows "\<exists>cit before after.
           findCitationRelationships (sampledPapersOf papers) = Inr cit \<and>
           nonCitationEdges rnd n papers @ cit = before @ r # after \<and>
           ukey r \<notin> ukey ` set before"
proof -
  from analyzeRelationships_Inr [OF assms(1)] obtain cit where
    c: "findCitationRelationships (sampledPapersOf papers) = Inr cit" and
    r: "rels = take 200 (rankRelationships (deduplicateRelationships
                    (nonCitationEdges rnd n papers @ cit)))" by blast
  from assms(2) have "r \<in> set (deduplicateRelationships (nonCitationEdges rnd n papers @ cit))"
    unfolding r using set_take_subset set_rankRelationships by fastforce
  from dedupLoop_first_seen [OF this [unfolded deduplicateRelationships_def]] c
  show ?thesis by blast
qed

section \<open>When no id contains a hyphen, every first-seen relationship is kept\<close>

lemma hyphen_split:
  "CHR ''-'' \<notin> set s \<Longrightarrow> CHR ''-'' \<notin> set s' \<Longrightarrow>
   s @ CHR ''-'' # x = s' @ CHR ''-'' # y \<Longrightarrow> s = s' \<and> x = y"
proof (induction s arbitrary: s')
  case Nil
  then show ?case by (cases s') auto
next
  case (Cons c s)
  then show ?case by (cases s') auto
qed

lemma key1_inj:
  assumes "CHR ''-'' \<notin> set s" "CHR ''-'' \<notin> set t" "CHR ''-'' \<notin> set s'" "CHR ''-'' \<notin> set t'"
    and "s @ ''-'' @ t @ ''-'' @ x = s' @ ''-'' @ t' @ ''-'' @ y"
  shows "s = s' \<and> t = t' \<and> x = y"
proof -
  from assms(5) have e: "s @ CHR ''-'' # (t @ CHR ''-'' # x) = s' @ CHR ''-'' # (t' @ CHR ''-'' # y)"
    by simp
  from hyphen_split [OF assms(1,3) e] have "s = s'" "t @ CHR ''-'' # x = t' @ CHR ''-'' # y"
    by simp_all
  with hyphen_split [OF assms(2,4)] show ?thesis by simp
qed

lemma type_name_inj: "type_name a = type_name b \<Longrightarrow> a = b"
  by (cases a; cases b) simp_all

lemma keys_collision_free:
  assumes "hyphen_free r" and "hyphen_free r'"
    and "key1 r = key1 r' \<or> key1 r = key2 r'"
  shows "ukey r = ukey r'"
proof -
  from assms(1,2) have h:
    "CHR ''-'' \<notin> set (sourceId r)" "CHR ''-'' \<notin> set (targetId r)"
    "CHR ''-'' \<notin> set (sourceId r')" "CHR ''-'' \<notin> set (targetId r')"
    by (simp_all add: hyphen_free_def)
  from assms(3) show ?thesis
  proof
    assume "key1 r = key1 r'"
    from key1_inj [OF h(1,2,3,4) this [unfolded key1_def]] type_name_inj
    show ?thesis by (auto simp: ukey_def)
  next
    assume "key1 r = key2 r'"
    from key1_inj [OF h(1,2,4,3) this [unfolded key1_def key2_def]] type_name_inj
    show ?thesis by (auto simp: ukey_def)
  qed
qed

lemma dedupLoop_keeps:
  assumes "\<And>x. x \<in> kept \<union> set rels \<Longrightarrow> hyphen_free x"
    and "seen \<subseteq> key1 ` kept"
    and "r \<in> set rels"
  shows "ukey r \<in> ukey ` kept \<union> ukey ` set (dedupLoop seen rels)"
  using assms
proof (induction rels arbitrary: seen kept)
  case Nil
  then show ?case by simp
next
  case (Cons rel rels)
  show ?case
  proof (cases "key1 rel \<notin> seen \<and> key2 rel \<notin> seen")
    case True
    have "ukey r \<in> ukey ` insert rel kept \<union> ukey ` set (dedupLoop (insert (key1 rel) seen) rels)"
    proof (cases "r = rel")
      case True
      then show ?thesis by simp
    next
      case False
      then have "r \<in> set rels" using Cons.prems(3) by simp
      moreover have "insert (key1 rel) seen \<subseteq> key1 ` insert rel kept"
        using Cons.prems(2) by auto
      moreover have "\<And>x. x \<in> insert rel kept \<union> set rels \<Longrightarrow> hyphen_free x"
        using Cons.prems(1) by auto
      ultimately show ?thesis by (intro Cons.IH) 
    qed
    then show ?thesis using True by auto
  next
    case False
    then obtain d where d: "d \<in> kept" "key1 d = key1 rel \<or> key1 d = key2 rel"
      using Cons.prems(2) by (metis imageE subsetD)
    have "ukey d = ukey rel"
      using keys_collision_free [of d rel] d Cons.prems(1) by simp
    then have rel_in: "ukey rel \<in> ukey ` kept" using d(1) by (metis imageI)
    have "ukey r \<in> ukey ` kept \<union> ukey ` set (dedupLoop seen rels)"
    proof (cases "r = rel")
      case True
      then show ?thesis using rel_in by simp
    next
      case False
      then have "r \<in> set rels" using Cons.prems(3) by simp
      moreover have "\<And>x. x \<in> kept \<union> set rels \<Longrightarrow> hyphen_free x"
        using Cons.prems(1) by auto
      ultimately show ?thesis using Cons.prems(2) by (intro Cons.IH)
    qed
    then show ?thesis using False by auto
  qed
qed

lemma deduplicate_keeps_first_seen:
  assumes "\<And>x. x \<in> set rels \<Longrightarrow> hyphen_free x" and "r \<in> set rels"
  shows "ukey r \<in> ukey ` set (deduplicateRelationships rels)"
  using dedupLoop_keeps [of "{}" rels "{}" r] assms
  by (simp add: deduplicateRelationships_def)

section \<open>Properties of the cache\<close>

lemma length_map_set:
  "length (map_set m k v) = (if k \<in> fst ` set m then length m else Suc (length m))"
  by (induction m k v rule: map_set.induct) auto

lemma map_set_fresh: "k \<notin> fst ` set m \<Longrightarrow> map_set m k v = m @ [(k, v)]"
  by (induction m k v rule: map_set.induct) auto

lemma keys_map_set: "fst ` set (map_set m k v) = insert k (fst ` set m)"
  by (induction m k v rule: map_set.induct) auto

lemma distinct_map_set: "distinct (map fst m) \<Longrightarrow> distinct (map fst (map_set m k v))"
proof (induction m k v rule: map_set.induct)
  case (1 k v)
  then show ?case by simp
next
  case (2 k' v' m k v)
  then show ?case using keys_map_set [of m k v] by auto
qed

lemma length_map_delete:
  "distinct (map fst m) \<Longrightarrow> k \<in> fst ` set m \<Longrightarrow> Suc (length (map_delete m k)) = length m"
proof (induction m)
  case Nil
  then show ?case by simp
next
  case (Cons kv m)
  show ?case
  proof (cases "fst kv = k")
    case True
    then have "k \<notin> fst ` set m" using Cons.prems(1) by auto
    then have "filter (\<lambda>kv. fst kv \<noteq> k) m = m" by (intro filter_True) force
    then show ?thesis using True by (simp add: map_delete_def)
  next
    case False
    then show ?thesis using Cons by (auto simp: map_delete_def)
  qed
qed

lemma distinct_map_delete: "distinct (map fst m) \<Longrightarrow> distinct (map fst (map_delete m k))"
  by (simp add: map_delete_def distinct_map_filter)

lemma cleanup_bound:
  assumes "distinct (map fst c)" and "length c \<le> Suc maxSize"
  shows "length (fst (cleanup clk t c)) \<le> maxSize \<and> distinct (map fst (fst (cleanup clk t c)))"
proof -
  let ?swept = "filter (\<lambda>kv. \<not> expired (clk t) (snd kv)) c"
  have d: "distinct (map fst ?swept)" using assms(1) by (simp add: distinct_map_filter)
  have l: "length ?swept \<le> Suc maxSize"
    using assms(2) length_filter_le [of _ c] le_trans by blast
  show ?thesis
  proof (cases "length ?swept > maxSize")
    case False
    then show ?thesis using d by (simp add: cleanup_def Let_def)
  next
    case True
    with l have len: "length ?swept = Suc maxSize" by simp
    let ?sorted = "sort_key (\<lambda>kv. timestamp (snd kv)) ?swept"
    have "length ?sorted = Suc maxSize" using len by simp
    then obtain entry entries where s: "?sorted = entry # entries" by (cases ?sorted) auto
    have "entry \<in> set ?sorted" using s by simp
    then have "fst entry \<in> fst ` set ?swept" by simp
    from length_map_delete [OF d this] len
    have ld: "length (map_delete ?swept (fst entry)) = maxSize" by simp
    have "evictLoop 0 ?sorted ?swept = map_delete ?swept (fst entry)"
      unfolding s using len ld by (cases entries) simp_all
    then show ?thesis
      using True ld distinct_map_delete [OF d, of "fst entry"] by (simp add: cleanup_def Let_def)
  qed
qed

lemma cache_set_bound:
  assumes "distinct (map fst c)" and "length c \<le> Suc maxSize"
  shows "length (fst (cache_set clk t c key d ttlMinutes)) \<le> Suc maxSize \<and>
         distinct (map fst (fst (cache_set clk t c key d ttlMinutes)))"
proof (cases "length c \<ge> maxSize")
  case True
  from cleanup_bound [OF assms, of clk t] show ?thesis
    using True by (simp add: cache_set_def case_prod_beta length_map_set distinct_map_set)
next
  case False
  then show ?thesis using assms(1)
    by (simp add: cache_set_def length_map_set distinct_map_set)
qed


section \<open>Filling the cache\<close>

lemma cache_sets_append:
  "cache_sets clk t c (xs @ ys) =
     (case cache_sets clk t c xs of (c', t') \<Rightarrow> cache_sets clk t' c' ys)"
  by (induction xs arbitrary: t c) (auto split: prod.splits)

lemma key_no_inj: "key_no i = key_no j \<Longrightarrow> i = j"
  by (metis key_no_def length_replicate nat.inject)

lemma cache_set_on_fresh_items:
  assumes "n \<le> maxSize"
  shows "fst (cache_set clock_zero t (map (\<lambda>i. (key_no i, freshItem)) [0..<n]) (key_no n) () 60)
         = map (\<lambda>i. (key_no i, freshItem)) [0..<Suc n]"
proof -
  let ?c = "map (\<lambda>i. (key_no i, freshItem)) [0..<n]"
  have unexpired: "filter (\<lambda>kv. \<not> expired (clock_zero t) (snd kv)) ?c = ?c"
    by (intro filter_True) (auto simp: expired_def freshItem_def clock_zero_def)
  have "fst (cleanup clock_zero t ?c) = ?c"
    unfolding cleanup_def Let_def unexpired using assms by simp
  then have c1: "fst (if length ?c \<ge> maxSize then cleanup clock_zero t ?c else (?c, t)) = ?c"
    by simp
  have fresh: "key_no n \<notin> fst ` set ?c"
  proof
    assume "key_no n \<in> fst ` set ?c"
    then obtain i where "i < n" "key_no n = key_no i" by auto
    then show False using key_no_inj [of n i] by simp
  qed
  have "fst (cache_set clock_zero t ?c (key_no n) () 60) =
          map_set (fst (if length ?c \<ge> maxSize then cleanup clock_zero t ?c else (?c, t)))
            (key_no n) freshItem"
    by (simp add: cache_set_def case_prod_beta Let_def freshItem_def clock_zero_def)
  also have "\<dots> = map_set ?c (key_no n) freshItem" by (simp only: c1)
  also have "\<dots> = ?c @ [(key_no n, freshItem)]" by (rule map_set_fresh [OF fresh])
  also have "\<dots> = map (\<lambda>i. (key_no i, freshItem)) [0..<Suc n]" by simp
  finally show ?thesis .
qed

lemma cache_sets_manyKeys:
  "n \<le> Suc maxSize \<Longrightarrow>
     fst (cache_sets clock_zero t [] (manyKeys n)) = map (\<lambda>i. (key_no i, freshItem)) [0..<n]"
proof (induction n arbitrary: t)
  case 0
  then show ?case by (simp add: manyKeys_def)
next
  case (Suc n)
  then have n: "n \<le> maxSize" by simp
  have "manyKeys (Suc n) = manyKeys n @ [(key_no n, ())]" by (simp add: manyKeys_def)
  then show ?case
    using Suc.IH [of t] n cache_set_on_fresh_items [OF n]
    by (simp add: cache_sets_append case_prod_beta del: upt_Suc)
qed

section \<open>Properties of the route\<close>

lemma mark_cached_idem: "mark_cached (mark_cached g) = mark_cached g"
  by (simp add: mark_cached_def)

lemma map_of_map_set: "map_of (map_set m k v) k = Some v"
  by (induction m k v rule: map_set.induct) auto

lemma cache_get_hit:
  "map_of c key = Some item \<Longrightarrow> \<not> expired (clk t) item \<Longrightarrow>
     cache_get clk t c key = (Some (data item), c, Suc t)"
  by (simp add: cache_get_def)

lemma cache_get_Some:
  assumes "cache_get clk t c key = (Some d, c', t')"
  shows "c' = c \<and> (\<exists>item. map_of c key = Some item \<and> data item = d)"
  using assms by (cases "map_of c key") (auto simp: cache_get_def split: if_splits)

lemma cache_set_stores:
  "\<exists>ts. map_of (fst (cache_set clk t c key d ttlMinutes)) key =
          Some \<lparr>data = d, timestamp = ts, ttl = ttlMinutes * 60 * 1000\<rparr>"
  by (simp add: cache_set_def case_prod_beta map_of_map_set)

lemma buildFresh_ok:
  assumes "buildFresh rnd clk s currentTopic key ps = (Response 200 (Built resp), s')"
  shows "\<exists>item. map_of (graphCache s') key = Some item \<and> data item = resp"
proof -
  obtain res r1 where a: "analyzeRelationships rnd (rndPos s) (take 500 ps) = (res, r1)"
    by (cases "analyzeRelationships rnd (rndPos s) (take 500 ps)")
  show ?thesis
  proof (cases res)
    case (Inl e)
    with assms a show ?thesis by (simp add: buildFresh_def Let_def)
  next
    case (Inr relationships)
    obtain extra r2 where g: "generateGraphConnections rnd (take 500 ps) r1 = (extra, r2)"
      by (cases "generateGraphConnections rnd (take 500 ps) r1")
    obtain nodes t2 where o: "optimizePapersForFrontend clk (take 500 ps) (clkPos s) = (nodes, t2)"
      by (cases "optimizePapersForFrontend clk (take 500 ps) (clkPos s)")
    obtain c2 t3 where cs: "cache_set clk t2 (graphCache s) key resp 60 = (c2, t3)"
      by (cases "cache_set clk t2 (graphCache s) key resp 60")
    from assms a Inr g o have "graphCache s' = fst (cache_set clk t2 (graphCache s) key resp 60)"
      by (auto simp: buildFresh_def Let_def split: prod.splits)
    with cache_set_stores [of clk t2 "graphCache s" key resp 60] show ?thesis by auto
  qed
qed


lemma route_ok:
  assumes "build_knowledge_graph rnd clk s b = (Response 200 (Built resp), s')"
  shows "\<exists>item. map_of (graphCache s') (requestKey b) = Some item \<and>
           mark_cached (data item) = mark_cached resp"
proof -
  from assms obtain ps where ps: "body_papers b = Some ps" "ps \<noteq> []"
    by (cases "body_papers b") (auto simp: build_knowledge_graph_def rejected_def split: if_splits)
  let ?key = "cacheKeyOf (currentTopicOf b) ps"
  have key: "requestKey b = ?key" by (simp add: requestKey_def ps)
  obtain g c1 t1 where cg: "cache_get clk (clkPos s) (graphCache s) ?key = (g, c1, t1)"
    by (cases "cache_get clk (clkPos s) (graphCache s) ?key")
  show ?thesis
  proof (cases g)
    case (Some cachedGraph)
    with assms ps cg have r: "resp = mark_cached cachedGraph" "graphCache s' = c1"
      by (auto simp: build_knowledge_graph_def Let_def)
    from cache_get_Some [OF cg [unfolded Some]] obtain item where
      "c1 = graphCache s" "map_of (graphCache s) ?key = Some item" "data item = cachedGraph"
      by blast
    with r show ?thesis by (auto simp: key mark_cached_idem)
  next
    case None
    with assms ps cg have
      "buildFresh rnd clk (s\<lparr>graphCache := c1, clkPos := t1\<rparr>) (currentTopicOf b) ?key ps
         = (Response 200 (Built resp), s')"
      by (simp add: build_knowledge_graph_def Let_def)
    from buildFresh_ok [OF this] show ?thesis by (auto simp: key)
  qed
qed

lemma hit_on_any_state:
  assumes "body_papers b = Some ps" and "ps \<noteq> []"
    and "map_of (graphCache s2) (requestKey b) = Some item"
    and "\<not> expired (clk (clkPos s2)) item"
  shows "build_knowledge_graph rnd clk s2 b =
           (Response 200 (Built (mark_cached (data item))), s2\<lparr>clkPos := Suc (clkPos s2)\<rparr>)"
proof -
  have key: "requestKey b = cacheKeyOf (currentTopicOf b) ps"
    by (simp add: requestKey_def assms(1))
  have "cache_get clk (clkPos s2) (graphCache s2) (requestKey b) =
          (Some (data item), graphCache s2, Suc (clkPos s2))"
    using assms(3,4) by (rule cache_get_hit)
  then show ?thesis
    using assms(1,2) by (simp add: build_knowledge_graph_def Let_def key [symmetric])
qed

lemma miss_is_fresh:
  assumes "body_papers b = Some ps" and "ps \<noteq> []"
    and "map_of (graphCache s) (requestKey b) = None"
  shows "build_knowledge_graph rnd clk s b =
           buildFresh rnd clk s (currentTopicOf b) (requestKey b) ps"
  using assms by (simp add: build_knowledge_graph_def cache_get_def requestKey_def Let_def)

lemma optimizeLoop_ids:
  "\<forall>p\<in>set ps. id' p \<noteq> [] \<Longrightarrow> snd (optimizeLoop clk ps i t) = t"
  by (induction ps arbitrary: i) (simp_all add: case_prod_beta)

lemma buildFresh_state:
  assumes "analyzeRelationships rnd (rndPos s) (take 500 ps) = (Inr rels, r1)"
    and "generateGraphConnections rnd (take 500 ps) r1 = (extra, r2)"
    and "snd (optimizePapersForFrontend clk (take 500 ps) (clkPos s)) = t2"
  shows "\<exists>d. snd (buildFresh rnd clk s currentTopic key ps) =
           s\<lparr>graphCache := fst (cache_set clk t2 (graphCache s) key d 60),
             rndPos := r2,
             clkPos := snd (cache_set clk t2 (graphCache s) key d 60)\<rparr>"
  by (intro exI) (simp add: buildFresh_def Let_def case_prod_beta assms)

lemma buildFresh_response:
  "fst (buildFresh rnd clk (s\<lparr>graphCache := c\<rparr>) currentTopic key ps) =
   fst (buildFresh rnd clk s currentTopic key ps)"
  by (simp add: buildFresh_def Let_def case_prod_beta split: sum.splits)

lemma analyzeRelationships_empty: "analyzeRelationships rnd n [] = (Inr [], n)"
  by (simp add: analyzeRelationships_def sampledPapersOf_def sampleSizeOf_eq stratifiedSample_def
        yearGroups_def findAuthorRelationships_def findContentRelationships_def
        findCitationRelationships_def deduplicateRelationships_def rankRelationships_def)


section \<open>An unexpired entry evicted by later requests\<close>

text \<open>
  A \<open>set\<close> with a new key on a cache that holds no expired entry, at most \<open>maxSize + 1\<close>
  entries and these in the order of their timestamps: the clean-up, if it runs, deletes
  the first entry when there are \<open>maxSize + 1\<close> and nothing otherwise.
\<close>

lemma cleanup_unexpired_sorted:
  assumes "\<forall>kv\<in>set c. \<not> expired (clk t) (snd kv)"
    and "distinct (map fst c)"
    and "sorted (map (\<lambda>kv. timestamp (snd kv)) c)"
    and "length c \<le> Suc maxSize"
  shows "cleanup clk t c = (if length c = Suc maxSize then tl c else c, Suc t)"
proof -
  have swept: "filter (\<lambda>kv. \<not> expired (clk t) (snd kv)) c = c"
    using assms(1) by (intro filter_True) auto
  show ?thesis
  proof (cases "length c = Suc maxSize")
    case False
    with assms(4) show ?thesis by (simp add: cleanup_def Let_def swept)
  next
    case True
    then obtain e es where c: "c = e # es" by (cases c) auto
    have s: "sort_key (\<lambda>kv. timestamp (snd kv)) c = c"
      using assms(3) by (rule sort_key_id_if_sorted)
    have ne: "fst e \<notin> fst ` set es" using assms(2) unfolding c by simp
    have "filter (\<lambda>kv. fst kv \<noteq> fst e) es = es"
    proof (rule filter_True, rule ballI)
      fix x
      assume "x \<in> set es"
      then have "fst x \<in> fst ` set es" by (rule imageI)
      with ne show "fst x \<noteq> fst e" by metis
    qed
    then have d: "map_delete c (fst e) = es" by (simp add: map_delete_def c)
    have les: "length es = maxSize" using True c by simp
    have 1: "evictLoop (Suc 0) es es = es" using les by (cases es) simp_all
    have ev: "evictLoop 0 c c = tl c"
      using les d 1 unfolding c by simp
    have "cleanup clk t c = (evictLoop 0 c c, Suc t)"
      unfolding cleanup_def Let_def swept s using True by simp
    then show ?thesis using True ev by simp
  qed
qed

lemma cache_set_fresh_key:
  assumes "key \<notin> fst ` set c"
    and "\<forall>kv\<in>set c. \<not> expired (clk t) (snd kv)"
    and "distinct (map fst c)"
    and "sorted (map (\<lambda>kv. timestamp (snd kv)) c)"
    and "length c \<le> Suc maxSize"
  shows "\<exists>t1. t \<le> t1 \<and> t1 \<le> Suc t \<and>
           cache_set clk t c key d m =
             ((if length c = Suc maxSize then tl c else c) @
              [(key, \<lparr>data = d, timestamp = clk t1, ttl = m * 60 * 1000\<rparr>)], Suc t1)"
proof (cases "length c \<ge> maxSize")
  case False
  then have "cache_set clk t c key d m =
     (c @ [(key, \<lparr>data = d, timestamp = clk t, ttl = m * 60 * 1000\<rparr>)], Suc t)"
    using assms(1) by (simp add: cache_set_def map_set_fresh)
  moreover have "length c \<noteq> Suc maxSize" using False by simp
  ultimately show ?thesis by (intro exI [of _ t]) simp
next
  case True
  let ?c1 = "if length c = Suc maxSize then tl c else c"
  have "key \<notin> fst ` set ?c1" using assms(1) by (cases c) auto
  then have "map_set ?c1 key \<lparr>data = d, timestamp = clk (Suc t), ttl = m * 60 * 1000\<rparr> =
     ?c1 @ [(key, \<lparr>data = d, timestamp = clk (Suc t), ttl = m * 60 * 1000\<rparr>)]"
    by (rule map_set_fresh)
  then have "cache_set clk t c key d m =
     (?c1 @ [(key, \<lparr>data = d, timestamp = clk (Suc t), ttl = m * 60 * 1000\<rparr>)], Suc (Suc t))"
    using True cleanup_unexpired_sorted [of c clk t] assms(2-5) by (simp add: cache_set_def)
  then show ?thesis by (intro exI [of _ "Suc t"]) simp
qed

lemma serve_append: "serve rnd clk s (xs @ ys) = serve rnd clk (serve rnd clk s xs) ys"
  by (induction xs arbitrary: s) simp_all

lemma topic_no_inj:
  assumes "topic_no i = topic_no j"
  shows "i = j"
proof -
  have u: "\<And>n. length (filter (\<lambda>c. c = CHR ''u'') (topic_no n)) = n div 484"
    by (simp add: topic_no_def filter_replicate)
  have v: "\<And>n. length (filter (\<lambda>c. c = CHR ''v'') (topic_no n)) = n div 22 mod 22"
    by (simp add: topic_no_def filter_replicate)
  have w: "\<And>n. length (filter (\<lambda>c. c = CHR ''w'') (topic_no n)) = n mod 22"
    by (simp add: topic_no_def filter_replicate)
  have d: "\<And>n::nat. n div 484 = n div 22 div 22" by (simp add: div_mult2_eq)
  from assms u [of i] u [of j] have "i div 22 div 22 = j div 22 div 22" by (simp add: d)
  moreover from assms v [of i] v [of j] have "i div 22 mod 22 = j div 22 mod 22" by simp
  ultimately have "i div 22 = j div 22"
    by (metis div_mult_mod_eq)
  moreover from assms w [of i] w [of j] have "i mod 22 = j mod 22" by simp
  ultimately show ?thesis by (metis div_mult_mod_eq)
qed

lemma other_key:
  assumes "i \<le> maxSize"
  shows "requestKey (otherRequest i) = ''graph_'' @ topic_no i @ ''_Z''"
proof -
  have "i div 484 \<le> 20" using assms by (simp add: maxSize_def)
  moreover have "i div 22 mod 22 < 22" "i mod 22 < 22" by simp_all
  ultimately have l: "length (''graph_'' @ topic_no i @ ''_Z'') \<le> 100"
    by (simp add: topic_no_def)
  have t: "topic_no i \<noteq> []" by (simp add: topic_no_def)
  have "requestKey (otherRequest i) = take 100 (''graph_'' @ topic_no i @ ''_Z'')"
    using t unfolding requestKey_def otherRequest_def currentTopicOf_def cacheKeyOf_def
    by (simp add: examplePaper_def del: take_Cons_numeral take_append)
  also have "\<dots> = ''graph_'' @ topic_no i @ ''_Z''" using l by (rule take_all)
  finally show ?thesis .
qed

lemma other_key_inj:
  assumes "i \<le> maxSize" and "j \<le> maxSize"
    and "requestKey (otherRequest i) = requestKey (otherRequest j)"
  shows "i = j"
  using assms(3) topic_no_inj [of i j]
  by (simp add: other_key [OF assms(1)] other_key [OF assms(2)])

lemma example_key: "requestKey exampleRequest = ''graph_ml_A_B''"
  by code_simp

lemma other_key_not_example:
  assumes "i \<le> maxSize"
  shows "requestKey (otherRequest i) \<noteq> requestKey exampleRequest"
proof
  assume "requestKey (otherRequest i) = requestKey exampleRequest"
  then have "set (requestKey (otherRequest i)) = set ''graph_ml_A_B''"
    by (simp add: example_key)
  moreover have "CHR ''Z'' \<in> set (requestKey (otherRequest i))"
    by (simp add: other_key [OF assms])
  ultimately show False by simp
qed

lemma other_keys_distinct:
  "k \<le> Suc maxSize \<Longrightarrow>
     distinct (map (\<lambda>i. requestKey (otherRequest i)) [0..<k])"
  by (auto simp: distinct_map inj_on_def intro: other_key_inj)

lemma other_request_miss:
  assumes "rndPos s = 0"
    and "map_of (graphCache s) (requestKey (otherRequest i)) = None"
  shows "\<exists>d. snd (build_knowledge_graph rnd_low clk s (otherRequest i)) =
           s\<lparr>graphCache :=
                fst (cache_set clk (clkPos s) (graphCache s) (requestKey (otherRequest i)) d 60),
             clkPos :=
                snd (cache_set clk (clkPos s) (graphCache s) (requestKey (otherRequest i)) d 60)\<rparr>"
proof -
  let ?ps = "[examplePaper ''Z'' [] 2020 0]"
  have a: "analyzeRelationships rnd_low 0 ?ps = (Inr [], 0)" by code_simp
  have g: "generateGraphConnections rnd_low ?ps 0 = ([], 0)" by code_simp
  have o: "snd (optimizePapersForFrontend clk ?ps (clkPos s)) = clkPos s"
    by (simp add: optimizePapersForFrontend_def optimizeLoop_ids examplePaper_def)
  have m: "build_knowledge_graph rnd_low clk s (otherRequest i) =
          buildFresh rnd_low clk s (currentTopicOf (otherRequest i))
            (requestKey (otherRequest i)) ?ps"
    using assms(2) by (intro miss_is_fresh) (simp_all add: otherRequest_def)
  have r: "s\<lparr>rndPos := 0\<rparr> = s" using assms(1) by (cases s) simp
  from buildFresh_state [of rnd_low s ?ps "[]" 0 "[]" 0 clk "clkPos s"
         "currentTopicOf (otherRequest i)" "requestKey (otherRequest i)"] a g o assms(1)
  obtain d where "snd (buildFresh rnd_low clk s (currentTopicOf (otherRequest i))
            (requestKey (otherRequest i)) ?ps) =
           s\<lparr>graphCache :=
                fst (cache_set clk (clkPos s) (graphCache s) (requestKey (otherRequest i)) d 60),
             rndPos := 0,
             clkPos :=
                snd (cache_set clk (clkPos s) (graphCache s) (requestKey (otherRequest i)) d 60)\<rparr>"
    by auto
  then show ?thesis using assms(1) unfolding m by (intro exI [of _ d]) (cases s, simp)
qed

lemma example_request_miss:
  assumes "rndPos s = 0"
    and "map_of (graphCache s) (requestKey exampleRequest) = None"
  shows "fst (build_knowledge_graph rnd_low clk s exampleRequest) =
           Response 200 (Built exampleResponse)"
proof -
  let ?ps = "[examplePaper ''A'' [''x''] 2020 9, examplePaper ''B'' [''x''] 2010 5]"
  have b: "body_papers exampleRequest = Some ?ps" by (simp add: exampleRequest_def)
  have e: "fst (buildFresh rnd_low clk \<lparr>graphCache = [], rndPos = 0, clkPos = t\<rparr>
               (currentTopicOf exampleRequest) (requestKey exampleRequest) ?ps) =
          Response 200 (Built exampleResponse)" for t
    by code_simp
  have "s\<lparr>graphCache := []\<rparr> = \<lparr>graphCache = [], rndPos = 0, clkPos = clkPos s\<rparr>"
    using assms(1) by (cases s) simp
  with e [of "clkPos s"] buildFresh_response [where rnd = rnd_low and clk = clk and s = s and c = "[]"]
  have "fst (buildFresh rnd_low clk s
               (currentTopicOf exampleRequest) (requestKey exampleRequest) ?ps) =
          Response 200 (Built exampleResponse)"
    by simp
  then show ?thesis
    using miss_is_fresh [OF b _ assms(2), of rnd_low clk] by simp
qed

lemma example_key_not_other:
  assumes "k \<le> Suc maxSize"
  shows "requestKey exampleRequest \<notin> set (map (\<lambda>i. requestKey (otherRequest i)) [0..<k])"
proof
  assume "requestKey exampleRequest \<in> set (map (\<lambda>i. requestKey (otherRequest i)) [0..<k])"
  then obtain j where j: "j < k" "requestKey exampleRequest = requestKey (otherRequest j)"
    by auto
  from j(1) assms have "j \<le> maxSize" by simp
  from other_key_not_example [OF this] j(2) show False by simp
qed

lemma other_key_fresh:
  assumes "k \<le> maxSize"
  shows "requestKey (otherRequest k) \<notin>
           set (requestKey exampleRequest # map (\<lambda>i. requestKey (otherRequest i)) [0..<k])"
proof
  assume "requestKey (otherRequest k) \<in>
           set (requestKey exampleRequest # map (\<lambda>i. requestKey (otherRequest i)) [0..<k])"
  with other_key_not_example [OF assms]
  obtain j where j: "j < k" "requestKey (otherRequest k) = requestKey (otherRequest j)"
    by auto
  from j(1) assms have "j \<le> maxSize" by simp
  from other_key_inj [OF assms this j(2)] j(1) show False by simp
qed

lemma keys_distinct:
  assumes "k \<le> Suc maxSize"
  shows "distinct (requestKey exampleRequest # map (\<lambda>i. requestKey (otherRequest i)) [0..<k])"
  using example_key_not_other [OF assms] other_keys_distinct [OF assms] by simp

lemma flood_step:
  assumes r: "rndPos s = 0"
    and b: "clkPos s \<le> 30000"
    and fresh: "requestKey (otherRequest i) \<notin> fst ` set (graphCache s)"
    and d: "distinct (map fst (graphCache s))"
    and so: "sorted (map (\<lambda>kv. timestamp (snd kv)) (graphCache s))"
    and items: "\<forall>kv\<in>set (graphCache s).
                 0 \<le> timestamp (snd kv) \<and> timestamp (snd kv) < int (clkPos s) \<and>
                 ttl (snd kv) = 3600000"
    and len: "length (graphCache s) \<le> Suc maxSize"
  shows "rndPos (snd (build_knowledge_graph rnd_low clock_ms s (otherRequest i))) = 0 \<and>
         clkPos (snd (build_knowledge_graph rnd_low clock_ms s (otherRequest i))) \<le> clkPos s + 2 \<and>
         map fst (graphCache (snd (build_knowledge_graph rnd_low clock_ms s (otherRequest i)))) =
           (if length (graphCache s) = Suc maxSize then tl (map fst (graphCache s))
            else map fst (graphCache s)) @ [requestKey (otherRequest i)] \<and>
         sorted (map (\<lambda>kv. timestamp (snd kv))
                   (graphCache (snd (build_knowledge_graph rnd_low clock_ms s (otherRequest i))))) \<and>
         (\<forall>kv\<in>set (graphCache (snd (build_knowledge_graph rnd_low clock_ms s (otherRequest i)))).
            0 \<le> timestamp (snd kv) \<and>
            timestamp (snd kv) <
              int (clkPos (snd (build_knowledge_graph rnd_low clock_ms s (otherRequest i)))) \<and>
            ttl (snd kv) = 3600000)"
proof -
  let ?key = "requestKey (otherRequest i)"
  let ?c = "graphCache s"
  let ?c1 = "if length ?c = Suc maxSize then tl ?c else ?c"
  let ?s' = "snd (build_knowledge_graph rnd_low clock_ms s (otherRequest i))"
  have none: "map_of ?c ?key = None" using fresh by (simp add: map_of_eq_None_iff)
  from other_request_miss [OF r none, of clock_ms] obtain dat where
    s': "?s' = s\<lparr>graphCache := fst (cache_set clock_ms (clkPos s) ?c ?key dat 60),
                clkPos := snd (cache_set clock_ms (clkPos s) ?c ?key dat 60)\<rparr>"
    by blast
  have unexpired: "\<forall>kv\<in>set ?c. \<not> expired (clock_ms (clkPos s)) (snd kv)"
    using items b by (auto simp: expired_def clock_ms_def)
  from cache_set_fresh_key [of ?key ?c clock_ms "clkPos s" dat 60] fresh unexpired d so len
  obtain t1 where
    t1: "clkPos s \<le> t1" "t1 \<le> Suc (clkPos s)" and
    cs: "cache_set clock_ms (clkPos s) ?c ?key dat 60 =
           (?c1 @ [(?key, \<lparr>data = dat, timestamp = clock_ms t1, ttl = 60 * 60 * 1000\<rparr>)], Suc t1)"
    by blast
  have g: "graphCache ?s' =
             ?c1 @ [(?key, \<lparr>data = dat, timestamp = int t1, ttl = 3600000\<rparr>)]"
    and p: "clkPos ?s' = Suc t1" and r': "rndPos ?s' = 0"
    unfolding s' cs using r by (simp_all add: clock_ms_def)
  have sub: "set ?c1 \<subseteq> set ?c" by (cases ?c) auto
  have so1: "sorted (map (\<lambda>kv. timestamp (snd kv)) ?c1)"
    using so by (cases ?c) auto
  have le: "\<forall>kv\<in>set ?c1. timestamp (snd kv) \<le> int t1"
    using items sub t1(1) by fastforce
  have k: "map fst ?c1 = (if length ?c = Suc maxSize then tl (map fst ?c) else map fst ?c)"
    by (simp add: map_tl)
  have "sorted (map (\<lambda>kv. timestamp (snd kv)) (graphCache ?s'))"
    unfolding g using so1 le by (simp add: sorted_append)
  moreover have "\<forall>kv\<in>set (graphCache ?s').
            0 \<le> timestamp (snd kv) \<and> timestamp (snd kv) < int (clkPos ?s') \<and>
            ttl (snd kv) = 3600000"
    unfolding g p using items sub le by fastforce
  moreover have "map fst (graphCache ?s') =
           (if length ?c = Suc maxSize then tl (map fst ?c) else map fst ?c) @ [?key]"
    unfolding g using k by simp
  moreover have "clkPos ?s' \<le> clkPos s + 2" unfolding p using t1(2) by simp
  ultimately show ?thesis using r' by blast
qed

lemma flood_invariant:
  "k \<le> maxSize \<Longrightarrow>
     rndPos (serverFlooded k) = 0 \<and>
     clkPos (serverFlooded k) \<le> 1 + 2 * k \<and>
     map fst (graphCache (serverFlooded k)) =
       requestKey exampleRequest # map (\<lambda>i. requestKey (otherRequest i)) [0..<k] \<and>
     sorted (map (\<lambda>kv. timestamp (snd kv)) (graphCache (serverFlooded k))) \<and>
     (\<forall>kv\<in>set (graphCache (serverFlooded k)).
        0 \<le> timestamp (snd kv) \<and> timestamp (snd kv) < int (clkPos (serverFlooded k)) \<and>
        ttl (snd kv) = 3600000)"
proof (induction k)
  case 0
  show ?case
    by (simp add: serverFlooded_def serverAfter_def exampleItem_def example_key)
next
  case (Suc k)
  then have k: "k \<le> maxSize" "k < maxSize" by simp_all
  let ?s = "serverFlooded k"
  let ?keys = "requestKey exampleRequest # map (\<lambda>i. requestKey (otherRequest i)) [0..<k]"
  from Suc.IH [OF k(1)] have
    r: "rndPos ?s = 0" and b: "clkPos ?s \<le> 1 + 2 * k" and
    keys: "map fst (graphCache ?s) = ?keys" and
    so: "sorted (map (\<lambda>kv. timestamp (snd kv)) (graphCache ?s))" and
    items: "\<forall>kv\<in>set (graphCache ?s).
              0 \<le> timestamp (snd kv) \<and> timestamp (snd kv) < int (clkPos ?s) \<and>
              ttl (snd kv) = 3600000"
    by blast+
  have next_state: "serverFlooded (Suc k) =
      snd (build_knowledge_graph rnd_low clock_ms ?s (otherRequest k))"
    by (simp add: serverFlooded_def serve_append)
  have b': "clkPos ?s \<le> 30000" using b k(1) by (simp add: maxSize_def)
  have "requestKey (otherRequest k) \<notin> set ?keys"
    using k(1) by (rule other_key_fresh)
  then have fresh: "requestKey (otherRequest k) \<notin> fst ` set (graphCache ?s)"
    using keys by (metis set_map)
  have "distinct ?keys"
    using k(1) by (intro keys_distinct) simp
  then have d: "distinct (map fst (graphCache ?s))" using keys by simp
  have "length (map fst (graphCache ?s)) = Suc k" unfolding keys by simp
  then have len: "length (graphCache ?s) \<le> Suc maxSize" "length (graphCache ?s) \<noteq> Suc maxSize"
    using k(2) by simp_all
  from flood_step [OF r b' fresh d so items len(1)] len(2) b keys
  show ?case unfolding next_state by simp
qed

lemma flooded_server:
  "rndPos floodedServer = 0 \<and> clkPos floodedServer \<le> 30000 \<and>
   map fst (graphCache floodedServer) = map (\<lambda>i. requestKey (otherRequest i)) [0..<Suc maxSize]"
proof -
  let ?s = "serverFlooded maxSize"
  let ?keys = "requestKey exampleRequest # map (\<lambda>i. requestKey (otherRequest i)) [0..<maxSize]"
  from flood_invariant [of maxSize] have
    r: "rndPos ?s = 0" and b: "clkPos ?s \<le> 1 + 2 * maxSize" and
    keys: "map fst (graphCache ?s) = ?keys" and
    so: "sorted (map (\<lambda>kv. timestamp (snd kv)) (graphCache ?s))" and
    items: "\<forall>kv\<in>set (graphCache ?s).
              0 \<le> timestamp (snd kv) \<and> timestamp (snd kv) < int (clkPos ?s) \<and>
              ttl (snd kv) = 3600000"
    by blast+
  have next_state: "floodedServer =
      snd (build_knowledge_graph rnd_low clock_ms ?s (otherRequest maxSize))"
    by (simp add: floodedServer_def serverFlooded_def serve_append)
  have b': "clkPos ?s \<le> 30000" using b by (simp add: maxSize_def)
  have "requestKey (otherRequest maxSize) \<notin> set ?keys"
    by (rule other_key_fresh) simp
  then have fresh: "requestKey (otherRequest maxSize) \<notin> fst ` set (graphCache ?s)"
    using keys by (metis set_map)
  have "distinct ?keys"
    by (rule keys_distinct) simp
  then have d: "distinct (map fst (graphCache ?s))" using keys by simp
  have "length (map fst (graphCache ?s)) = Suc maxSize" unfolding keys by simp
  then have len: "length (graphCache ?s) = Suc maxSize" by simp
  let ?s' = "snd (build_knowledge_graph rnd_low clock_ms ?s (otherRequest maxSize))"
  from flood_step [OF r b' fresh d so items] len keys have
    r': "rndPos ?s' = 0" and b'': "clkPos ?s' \<le> clkPos ?s + 2" and
    keys': "map fst (graphCache ?s') =
              map (\<lambda>i. requestKey (otherRequest i)) [0..<maxSize] @
              [requestKey (otherRequest maxSize)]"
    by simp_all
  have "clkPos ?s' \<le> 30000" using b b'' by (simp add: maxSize_def)
  moreover have "map fst (graphCache ?s') =
      map (\<lambda>i. requestKey (otherRequest i)) [0..<Suc maxSize]"
    using keys' by simp
  ultimately show ?thesis unfolding next_state using r' by blast
qed


section \<open>The claims\<close>

subsection \<open>C1: a failing detector\<close>

text \<open>
  C1 as stated fails. \<open>analyzeRelationships\<close> has no fault containment: on two papers
  with a common author, the second with a \<open>references\<close> field that is not an array, the
  author detector finds two relationships, the citation detector raises, and the call
  ends with the exception; the route handler answers with status 500.
\<close>

theorem detector_failure_not_contained:
  "findAuthorRelationships (sampledPapersOf malformedPapers) (buildAuthorIndex malformedPapers) =
     [rel ''A'' ''B'' Author (3 / 10) (AuthorOverlap [''x'']),
      rel ''B'' ''A'' Author (3 / 10) (AuthorOverlap [''x''])] \<and>
   fst (analyzeRelationships rnd_low 0 malformedPapers) = Inl TypeError \<and>
   fst (build_knowledge_graph rnd_low clock_zero emptyServer malformedRequest) =
     Response 500 (Failed ''Error building knowledge graph'' (Some TypeError))"
  by code_simp

text \<open>
  C1, amended. If the citation detector throws during \<open>analyzeRelationships\<close>, because a
  sampled paper has a \<open>references\<close> or \<open>citations\<close> field that is not an array, the
  failure is not contained: for every random source the call ends with that exception
  and returns no relationships. (The other four detectors read \<open>authors\<close>, \<open>venue\<close>,
  \<open>title\<close>, \<open>abstract\<close> and \<open>year\<close>; on a value of these fields on which one of them
  would raise, an index builder, run before them on all the papers, raises first, so the
  model takes these fields as typed.)
\<close>

theorem detector_failure_propagates:
  assumes "p \<in> set (sampledPapersOf papers)"
    and "references p = NotAnArray \<or> citations p = NotAnArray"
  shows "fst (analyzeRelationships rnd n papers) = Inl TypeError"
proof -
  from assms have "citationLoop (map id' (sampledPapersOf papers)) (sampledPapersOf papers) = Inl TypeError"
    unfolding citationLoop_Inl by blast
  then show ?thesis
    by (simp add: analyzeRelationships_Inl findCitationRelationships_def)
qed

theorem detector_failure_propagates_witness:
  "malformedPapers ! 1 \<in> set (sampledPapersOf malformedPapers) \<and>
   references (malformedPapers ! 1) = NotAnArray \<and>
   fst (analyzeRelationships rnd_high 0 malformedPapers) = Inl TypeError"
proof -
  have a: "malformedPapers ! 1 \<in> set (sampledPapersOf malformedPapers)" by code_simp
  have b: "references (malformedPapers ! 1) = NotAnArray" by code_simp
  from detector_failure_propagates [OF a, of rnd_high 0] a b show ?thesis by simp
qed

subsection \<open>C2: an empty paper list\<close>

text \<open>
  C2 as stated fails: the handler answers an empty paper list with status 400 and the
  message that a non-empty array is required.
\<close>

theorem empty_list_rejected_example:
  "build_knowledge_graph rnd_low clock_zero emptyServer emptyRequest =
     (Response 400 (Failed ''Papers array (non-empty) is required'' None), emptyServer)"
  by code_simp

text \<open>
  C2, amended. \<open>buildGraph\<close> called with an empty paper list is rejected before any
  processing: whatever the cache, the clock, the random source and the topic, the
  response has status 400 and the server state is unchanged. The engine itself,
  \<open>analyzeRelationships\<close>, does not fail on an empty list: it returns no relationship.
\<close>

theorem empty_list_rejected:
  "build_knowledge_graph rnd clk s \<lparr>body_papers = Some [], body_topic = t\<rparr> = (rejected, s) \<and>
   rejected = Response 400 (Failed ''Papers array (non-empty) is required'' None) \<and>
   analyzeRelationships rnd n [] = (Inr [], n)"
  by (simp add: build_knowledge_graph_def analyzeRelationships_empty rejected_def)

subsection \<open>C3: the endpoints of a relationship\<close>

text \<open>
  C3 as stated fails: the indexes are built from all the papers, before the sampling.
  Of four papers, \<open>A\<close>, \<open>B\<close> and \<open>C\<close> are sampled; the author index holds \<open>D\<close> under the
  author it shares with \<open>A\<close>, and the relationship returned ends in \<open>D\<close>.
\<close>

theorem endpoint_outside_sample:
  "fst (analyzeRelationships rnd_low 0 sharedAuthorPapers) =
     Inr [rel ''A'' ''D'' Author (3 / 10) (AuthorOverlap [''x''])] \<and>
   map id' (sampledPapersOf sharedAuthorPapers) = [''A'', ''B'', ''C''] \<and>
   map id' (index_get (buildAuthorIndex sharedAuthorPapers) ''x'') = [''A'', ''D'']"
  by code_simp

text \<open>
  C3, amended. The three indexes are built over all the papers passed to
  \<open>analyzeRelationships\<close>. For every relationship returned, the source id belongs to a
  sampled paper and the target id to one of the papers passed; for a content, temporal
  or citation relationship the target id belongs to a sampled paper too.
\<close>

theorem analyzeRelationships_endpoints:
  assumes "fst (analyzeRelationships rnd n papers) = Inr rels" and "r \<in> set rels"
  shows "sourceId r \<in> id' ` set (sampledPapersOf papers) \<and>
         targetId r \<in> id' ` set papers \<and>
         (relationshipType r \<in> {Content, Temporal, Citation} \<longrightarrow>
            targetId r \<in> id' ` set (sampledPapersOf papers))"
proof -
  from analyzeRelationships_subset [OF assms(1)] obtain cit where
    c: "findCitationRelationships (sampledPapersOf papers) = Inr cit" and
    s: "set rels \<subseteq> set (nonCitationEdges rnd n papers) \<union> set cit" by blast
  have sub: "id' ` set (sampledPapersOf papers) \<subseteq> id' ` set papers"
    using sampledPapersOf_subset by blast
  from s assms(2) have "r \<in> set (nonCitationEdges rnd n papers) \<or> r \<in> set cit" by auto
  then show ?thesis
  proof
    assume "r \<in> set (nonCitationEdges rnd n papers)"
    from nonCitationEdges_props [OF this] show ?thesis by auto
  next
    assume "r \<in> set cit"
    from citation_props [OF c this] sub show ?thesis by auto
  qed
qed

theorem analyzeRelationships_endpoints_witness:
  "fst (analyzeRelationships rnd_high 0 sharedAuthorPapers) =
     Inr [rel ''A'' ''D'' Author (3 / 10) (AuthorOverlap [''x'']),
          rel ''A'' ''B'' Temporal (3 / 10) (YearDifference 0),
          rel ''A'' ''C'' Temporal (3 / 10) (YearDifference 1),
          rel ''B'' ''C'' Temporal (3 / 10) (YearDifference 1)] \<and>
   ''A'' \<in> id' ` set (sampledPapersOf sharedAuthorPapers) \<and>
   ''C'' \<in> id' ` set sharedAuthorPapers \<and>
   ''C'' \<in> id' ` set (sampledPapersOf sharedAuthorPapers)"
proof -
  have h: "fst (analyzeRelationships rnd_high 0 sharedAuthorPapers) =
     Inr [rel ''A'' ''D'' Author (3 / 10) (AuthorOverlap [''x'']),
          rel ''A'' ''B'' Temporal (3 / 10) (YearDifference 0),
          rel ''A'' ''C'' Temporal (3 / 10) (YearDifference 1),
          rel ''B'' ''C'' Temporal (3 / 10) (YearDifference 1)]"
    by code_simp
  from analyzeRelationships_endpoints
         [OF h, of "rel ''A'' ''C'' Temporal (3 / 10) (YearDifference 1)"] h
  show ?thesis by (simp add: rel_def)
qed

subsection \<open>C4: the edge budget\<close>

text \<open>
  C4. For every input paper list, the list of relationships returned by
  \<open>analyzeRelationships\<close> has length at most the global edge budget of 200.
\<close>

theorem analyzeRelationships_budget:
  "fst (analyzeRelationships rnd n papers) = Inr rels \<Longrightarrow> length rels \<le> 200"
  by (drule analyzeRelationships_Inr) auto

theorem analyzeRelationships_budget_witness:
  "fst (analyzeRelationships rnd_high 0 citedPapers) =
     Inr [rel ''Y'' ''X'' Citation (9 / 10) (CitationCountOf (Some 0)),
          rel ''X'' ''Y'' Temporal (3 / 10) (YearDifference 1)] \<and>
   length [rel ''Y'' ''X'' Citation (9 / 10) (CitationCountOf (Some 0)),
           rel ''X'' ''Y'' Temporal (3 / 10) (YearDifference 1)] \<le> 200"
proof -
  have h: "fst (analyzeRelationships rnd_high 0 citedPapers) =
     Inr [rel ''Y'' ''X'' Citation (9 / 10) (CitationCountOf (Some 0)),
          rel ''X'' ''Y'' Temporal (3 / 10) (YearDifference 1)]"
    by code_simp
  from analyzeRelationships_budget [OF h] h show ?thesis by simp
qed

subsection \<open>C5: duplicates\<close>

text \<open>
  The relationships returned have pairwise different keys (unordered pair and type), and
  each of them is the first candidate with its key: no candidate before it in the merged
  list has the same unordered pair and the same type.
\<close>

lemma returned_keys_distinct_and_first_seen:
  assumes "fst (analyzeRelationships rnd n papers) = Inr rels"
  shows "distinct (map ukey rels) \<and>
         (\<forall>r\<in>set rels. \<exists>cit before after.
             findCitationRelationships (sampledPapersOf papers) = Inr cit \<and>
             nonCitationEdges rnd n papers @ cit = before @ r # after \<and>
             ukey r \<notin> ukey ` set before)"
  using analyzeRelationships_distinct [OF assms] analyzeRelationships_first_seen [OF assms]
  by blast

text \<open>
  C5 on four papers of one author with the ids \<open>a-b\<close>, \<open>c\<close>, \<open>a\<close> and \<open>b-c\<close>. The
  candidate from \<open>a\<close> to \<open>b-c\<close> is the first with its pair and type, but its textual key
  \<open>a-b-c-author\<close> is the key of the relationship from \<open>a-b\<close> to \<open>c\<close> seen before it, so
  the deduplicator drops it, and the relationship from \<open>b-c\<close> to \<open>a\<close> after it: of six
  pairs of papers only five are returned, none for the pair of \<open>a\<close> and \<open>b-c\<close>.
\<close>

theorem dedup_drops_first_seen:
  "rel ''a'' ''b-c'' Author (3 / 10) (AuthorOverlap [''x''])
     \<in> set (nonCitationEdges rnd_low 0 hyphenPapers) \<and>
   key1 (rel ''a'' ''b-c'' Author (3 / 10) (AuthorOverlap [''x''])) =
     key1 (rel ''a-b'' ''c'' Author (3 / 10) (AuthorOverlap [''x''])) \<and>
   fst (analyzeRelationships rnd_low 0 hyphenPapers) =
     Inr [rel ''a-b'' ''c'' Author (3 / 10) (AuthorOverlap [''x'']),
          rel ''a-b'' ''a'' Author (3 / 10) (AuthorOverlap [''x'']),
          rel ''a-b'' ''b-c'' Author (3 / 10) (AuthorOverlap [''x'']),
          rel ''c'' ''a'' Author (3 / 10) (AuthorOverlap [''x'']),
          rel ''c'' ''b-c'' Author (3 / 10) (AuthorOverlap [''x''])]"
  by code_simp

subsection \<open>C6: citation relationships\<close>

text \<open>
  C6 as stated fails for the \<open>citations\<close> list. Paper \<open>X\<close> lists \<open>Y\<close> among the papers
  that cite it and both are sampled, yet no relationship from \<open>X\<close> to \<open>Y\<close> is produced: the
  only relationship runs from \<open>Y\<close> to \<open>X\<close>, and \<open>X\<close> is in neither list of \<open>Y\<close>.
\<close>

theorem citation_direction_example:
  "findCitationRelationships citedPapers =
     Inr [rel ''Y'' ''X'' Citation (9 / 10) (CitationCountOf (Some 0))] \<and>
   map id' citedPapers = [''X'', ''Y''] \<and>
   map citedByIds citedPapers = [[''Y''], []] \<and>
   map referenceIds citedPapers = [[], []]"
  by code_simp

text \<open>
  C6, amended. The citation detector produces a relationship from \<open>s\<close> to \<open>t\<close> exactly
  when both ids belong to sampled papers and either \<open>t\<close> is in the \<open>references\<close> of a
  sampled paper with id \<open>s\<close> or \<open>s\<close> is in the \<open>citations\<close> of a sampled paper with id
  \<open>t\<close>: the relationship runs from the citing paper to the cited one. Each such
  relationship has type citation and strength 0.9. The detector is a function of the
  sampled papers alone: it reads no random value.
\<close>

theorem citation_edges_characterised:
  assumes "findCitationRelationships sampled = Inr rels"
  shows "((\<exists>r\<in>set rels. sourceId r = s \<and> targetId r = t) \<longleftrightarrow>
            s \<in> set (map id' sampled) \<and> t \<in> set (map id' sampled) \<and>
            ((\<exists>p\<in>set sampled. id' p = s \<and> t \<in> set (referenceIds p)) \<or>
             (\<exists>p\<in>set sampled. id' p = t \<and> s \<in> set (citedByIds p)))) \<and>
         (\<forall>r\<in>set rels. relationshipType r = Citation \<and> strength r = 9 / 10)"
proof (rule conjI, rule iffI)
  assume "\<exists>r\<in>set rels. sourceId r = s \<and> targetId r = t"
  then obtain r where r: "r \<in> set rels" "sourceId r = s" "targetId r = t" by blast
  from r(1) obtain p where p: "p \<in> set sampled" and
    d: "(\<exists>refId\<in>set (referenceIds p). refId \<in> set (map id' sampled) \<and>
             r = citationEdge (id' p) refId p) \<or>
        (\<exists>citId\<in>set (citedByIds p). citId \<in> set (map id' sampled) \<and>
             r = citationEdge citId (id' p) p)"
    unfolding citation_member [OF assms] by blast
  have ip: "id' p \<in> set (map id' sampled)" using p by simp
  from d show "s \<in> set (map id' sampled) \<and> t \<in> set (map id' sampled) \<and>
            ((\<exists>p\<in>set sampled. id' p = s \<and> t \<in> set (referenceIds p)) \<or>
             (\<exists>p\<in>set sampled. id' p = t \<and> s \<in> set (citedByIds p)))"
  proof
    assume "\<exists>refId\<in>set (referenceIds p). refId \<in> set (map id' sampled) \<and>
             r = citationEdge (id' p) refId p"
    then obtain refId where "refId \<in> set (referenceIds p)" "refId \<in> set (map id' sampled)"
      "r = citationEdge (id' p) refId p" by blast
    with r p ip show ?thesis by auto
  next
    assume "\<exists>citId\<in>set (citedByIds p). citId \<in> set (map id' sampled) \<and>
             r = citationEdge citId (id' p) p"
    then obtain citId where "citId \<in> set (citedByIds p)" "citId \<in> set (map id' sampled)"
      "r = citationEdge citId (id' p) p" by blast
    with r p ip show ?thesis by auto
  qed
next
  assume h: "s \<in> set (map id' sampled) \<and> t \<in> set (map id' sampled) \<and>
            ((\<exists>p\<in>set sampled. id' p = s \<and> t \<in> set (referenceIds p)) \<or>
             (\<exists>p\<in>set sampled. id' p = t \<and> s \<in> set (citedByIds p)))"
  then consider p where "p \<in> set sampled" "id' p = s" "t \<in> set (referenceIds p)"
    | p where "p \<in> set sampled" "id' p = t" "s \<in> set (citedByIds p)" by blast
  then show "\<exists>r\<in>set rels. sourceId r = s \<and> targetId r = t"
  proof cases
    case 1
    then have "citationEdge s t p \<in> set rels"
      unfolding citation_member [OF assms] using h by blast
    then show ?thesis by (intro bexI [of _ "citationEdge s t p"]) simp_all
  next
    case 2
    then have "citationEdge s t p \<in> set rels"
      unfolding citation_member [OF assms] using h by blast
    then show ?thesis by (intro bexI [of _ "citationEdge s t p"]) simp_all
  qed
next
  show "\<forall>r\<in>set rels. relationshipType r = Citation \<and> strength r = 9 / 10"
  proof
    fix r assume "r \<in> set rels"
    then obtain a b p where "r = citationEdge a b p"
      unfolding citation_member [OF assms] by blast
    then show "relationshipType r = Citation \<and> strength r = 9 / 10" by simp
  qed
qed

theorem citation_edges_characterised_witness:
  "findCitationRelationships citedPapers =
     Inr [rel ''Y'' ''X'' Citation (9 / 10) (CitationCountOf (Some 0))] \<and>
   ''Y'' \<in> set (map id' citedPapers) \<and> ''X'' \<in> set (map id' citedPapers) \<and>
   ((\<exists>p\<in>set citedPapers. id' p = ''Y'' \<and> ''X'' \<in> set (referenceIds p)) \<or>
    (\<exists>p\<in>set citedPapers. id' p = ''X'' \<and> ''Y'' \<in> set (citedByIds p)))"
proof -
  have h: "findCitationRelationships citedPapers =
     Inr [rel ''Y'' ''X'' Citation (9 / 10) (CitationCountOf (Some 0))]"
    by code_simp
  have "\<exists>r\<in>set [rel ''Y'' ''X'' Citation (9 / 10) (CitationCountOf (Some 0))].
          sourceId r = ''Y'' \<and> targetId r = ''X''"
    by (simp add: rel_def)
  with citation_edges_characterised [OF h, of "''Y''" "''X''"] h show ?thesis by blast
qed

subsection \<open>C7: a second call within the time to live\<close>

text \<open>
  C7 as stated fails. An entry can leave the cache before its time to live is over:
  \<open>cleanup\<close> deletes the oldest entries once the cache holds more than \<open>maxSize\<close>.
  The first call stores its response with timestamp 0 and a time to live of 60 minutes.
  Then 10001 requests with other topics are served, the clock advancing by a millisecond
  at every reading; the last of them finds 10001 entries, none of them expired, and
  evicts the oldest, which is the entry of the first call. The second call with the
  first request is made less than 30 seconds after the first. It finds no entry, builds
  the graph again and answers with \<open>cached\<close> false.
\<close>

theorem cached_entry_evicted:
  "build_knowledge_graph rnd_low clock_ms emptyServer exampleRequest =
     (Response 200 (Built exampleResponse), serverAfter) \<and>
   map_of (graphCache serverAfter) (requestKey exampleRequest) = Some exampleItem \<and>
   \<not> expired (clock_ms (clkPos floodedServer)) exampleItem \<and>
   map_of (graphCache floodedServer) (requestKey exampleRequest) = None \<and>
   fst (build_knowledge_graph rnd_low clock_ms floodedServer exampleRequest) =
     Response 200 (Built exampleResponse) \<and>
   cached (data' exampleResponse) = False"
proof -
  have first: "build_knowledge_graph rnd_low clock_ms emptyServer exampleRequest =
     (Response 200 (Built exampleResponse), serverAfter)"
    by code_simp
  have stored: "map_of (graphCache serverAfter) (requestKey exampleRequest) = Some exampleItem"
    by code_simp
  from flooded_server have
    r: "rndPos floodedServer = 0" and b: "clkPos floodedServer \<le> 30000" and
    keys: "map fst (graphCache floodedServer) =
             map (\<lambda>i. requestKey (otherRequest i)) [0..<Suc maxSize]"
    by blast+
  have live: "\<not> expired (clock_ms (clkPos floodedServer)) exampleItem"
    using b by (simp add: expired_def clock_ms_def exampleItem_def)
  have "requestKey exampleRequest \<notin> set (map fst (graphCache floodedServer))"
    unfolding keys by (rule example_key_not_other) simp
  then have gone: "map_of (graphCache floodedServer) (requestKey exampleRequest) = None"
    by (simp add: map_of_eq_None_iff)
  have again: "fst (build_knowledge_graph rnd_low clock_ms floodedServer exampleRequest) =
     Response 200 (Built exampleResponse)"
    using r gone by (rule example_request_miss)
  have flag: "cached (data' exampleResponse) = False" by (simp add: exampleResponse_def)
  from first stored live gone again flag show ?thesis by blast
qed

text \<open>
  C7, amended. If a call of \<open>buildGraph\<close> with papers \<open>P\<close> and topic \<open>T\<close> completes with
  a graph, the cache then holds an entry under the key of the request. A second call
  with the same request, made on any later state of the server in which that entry is
  still held (it has not been evicted under size pressure) and has not expired, returns
  the first response with the \<open>cached\<close> flag set: the same nodes, edges and
  relationships, and \<open>cached\<close> true. This holds whatever the random source and the clock
  of the second call; the second call draws no random value, reads the clock once and
  leaves the cache as it is, so none of the sampling, index, detector and ranking work is
  done.
\<close>

theorem cached_rebuild:
  assumes "build_knowledge_graph rnd clk s b = (Response 200 (Built resp), s')"
  shows "(\<exists>item. map_of (graphCache s') (requestKey b) = Some item) \<and>
         (\<forall>item. map_of (graphCache s') (requestKey b) = Some item \<longrightarrow>
                 map_of (graphCache s2) (requestKey b) = Some item \<longrightarrow>
                 \<not> expired (clk' (clkPos s2)) item \<longrightarrow>
                 (\<exists>resp2.
                    build_knowledge_graph rnd' clk' s2 b =
                      (Response 200 (Built resp2), s2\<lparr>clkPos := Suc (clkPos s2)\<rparr>) \<and>
                    resp2 = resp\<lparr>data' := (data' resp)\<lparr>cached := True\<rparr>\<rparr> \<and>
                    graphNodes (data' resp2) = graphNodes (data' resp) \<and>
                    graphEdges (data' resp2) = graphEdges (data' resp) \<and>
                    relationshipsFromService (data' resp2) =
                      relationshipsFromService (data' resp) \<and>
                    cached (data' resp2) = True))"
proof (intro conjI allI impI)
  from route_ok [OF assms] show "\<exists>item. map_of (graphCache s') (requestKey b) = Some item"
    by blast
next
  fix item
  assume m: "map_of (graphCache s') (requestKey b) = Some item"
    and m2: "map_of (graphCache s2) (requestKey b) = Some item"
    and e: "\<not> expired (clk' (clkPos s2)) item"
  from assms obtain ps where ps: "body_papers b = Some ps" "ps \<noteq> []"
    by (cases "body_papers b") (auto simp: build_knowledge_graph_def rejected_def split: if_splits)
  from route_ok [OF assms] m have "mark_cached (data item) = mark_cached resp" by auto
  then have d: "mark_cached (data item) = resp\<lparr>data' := (data' resp)\<lparr>cached := True\<rparr>\<rparr>"
    by (simp add: mark_cached_def)
  let ?resp2 = "resp\<lparr>data' := (data' resp)\<lparr>cached := True\<rparr>\<rparr>"
  have "build_knowledge_graph rnd' clk' s2 b =
          (Response 200 (Built ?resp2), s2\<lparr>clkPos := Suc (clkPos s2)\<rparr>)"
    using hit_on_any_state [of b ps s2 item clk' rnd'] ps m2 e d by simp
  moreover have "graphNodes (data' ?resp2) = graphNodes (data' resp)"
    "graphEdges (data' ?resp2) = graphEdges (data' resp)"
    "relationshipsFromService (data' ?resp2) = relationshipsFromService (data' resp)"
    "cached (data' ?resp2) = True"
    by simp_all
  ultimately show "\<exists>resp2.
                    build_knowledge_graph rnd' clk' s2 b =
                      (Response 200 (Built resp2), s2\<lparr>clkPos := Suc (clkPos s2)\<rparr>) \<and>
                    resp2 = resp\<lparr>data' := (data' resp)\<lparr>cached := True\<rparr>\<rparr> \<and>
                    graphNodes (data' resp2) = graphNodes (data' resp) \<and>
                    graphEdges (data' resp2) = graphEdges (data' resp) \<and>
                    relationshipsFromService (data' resp2) =
                      relationshipsFromService (data' resp) \<and>
                    cached (data' resp2) = True"
    by blast
qed

theorem cached_rebuild_witness:
  "build_knowledge_graph rnd_low clock_ms emptyServer exampleRequest =
     (Response 200 (Built exampleResponse), serverAfter) \<and>
   map_of (graphCache (serverFlooded 2)) (requestKey exampleRequest) = Some exampleItem \<and>
   build_knowledge_graph rnd_high clock_seconds (serverFlooded 2) exampleRequest =
     (Response 200 (Built (exampleResponse\<lparr>data' := (data' exampleResponse)\<lparr>cached := True\<rparr>\<rparr>)),
      (serverFlooded 2)\<lparr>clkPos := Suc (clkPos (serverFlooded 2))\<rparr>) \<and>
   cached (data' exampleResponse) = False"
proof -
  have first: "build_knowledge_graph rnd_low clock_ms emptyServer exampleRequest =
     (Response 200 (Built exampleResponse), serverAfter)"
    by code_simp
  have stored: "map_of (graphCache serverAfter) (requestKey exampleRequest) = Some exampleItem"
    by code_simp
  have held: "map_of (graphCache (serverFlooded 2)) (requestKey exampleRequest) = Some exampleItem"
    by code_simp
  have fresh: "\<not> expired (clock_seconds (clkPos (serverFlooded 2))) exampleItem"
    by code_simp
  have flag: "cached (data' exampleResponse) = False" by (simp add: exampleResponse_def)
  from cached_rebuild [OF first, of "serverFlooded 2" clock_seconds rnd_high]
    stored held fresh first flag
  show ?thesis by auto
qed

subsection \<open>C8: the size of the sample\<close>

text \<open>
  C8. For every paper list and every target size, the stratified sampler returns a list
  whose length is at most the smaller of the target size and the number of papers.
\<close>

theorem stratifiedSample_length:
  "length (stratifiedSample papers targetSize) \<le> min targetSize (length papers)"
  unfolding stratifiedSample_def Let_def
  using length_sample_le_papers [of papers "ceil_div targetSize (length (sort_key number_toString (map fst (yearGroups papers))))" number_toString]
  by simp

subsection \<open>C9: the size of the cache\<close>

text \<open>
  A \<open>set\<close> on a cache of at most \<open>maxSize + 1\<close> entries leaves at most \<open>maxSize + 1\<close>
  entries: the clean-up brings the size down to \<open>maxSize\<close>, and the new entry is stored
  after it.
\<close>

lemma cache_set_size:
  assumes "distinct (map fst c)" and "length c \<le> Suc maxSize"
  shows "length (fst (cache_set clk t c key d ttlMinutes)) \<le> Suc maxSize"
  using cache_set_bound [OF assms] by blast

text \<open>
  C9 on a cache filled by 10001 calls of \<open>set\<close> with different keys at one instant: the
  call that finds 10000 entries sweeps nothing, evicts nothing (the size is not above
  \<open>maxSize\<close>) and stores its entry, so the cache holds 10001 entries.
\<close>

theorem cache_exceeds_maxSize:
  "length (fst (cache_sets clock_zero 0 [] (manyKeys 10001))) = 10001 \<and> maxSize = 10000"
proof -
  have e: "(10001::nat) = Suc maxSize" by (simp add: maxSize_def)
  have "manyKeys 10001 = manyKeys (Suc maxSize)" by (simp only: e)
  then have "fst (cache_sets clock_zero 0 [] (manyKeys 10001)) =
             map (\<lambda>i. (key_no i, freshItem)) [0..<Suc maxSize]"
    by (simp only: cache_sets_manyKeys [OF le_refl])
  then show ?thesis by (simp add: maxSize_def del: upt_Suc)
qed

subsection \<open>C10: self-pairs\<close>

text \<open>
  C10 as stated fails for the temporal detector, which compares no ids: it pairs each
  paper with the papers after it in the sample. Two sampled papers with one id give a
  temporal relationship from that id to itself.
\<close>

theorem temporal_self_pair:
  "fst (analyzeRelationships rnd_high 0 duplicateIdPapers) =
     Inr [rel ''a'' ''a'' Temporal (3 / 10) (YearDifference 0)]"
  by code_simp

lemma citation_self_edge:
  assumes "findCitationRelationships sampled = Inr cit" and "p \<in> set sampled"
    and "id' p \<in> set (referenceIds p) \<or> id' p \<in> set (citedByIds p)"
  shows "citationEdge (id' p) (id' p) p \<in> set cit"
proof -
  have "id' p \<in> set (map id' sampled)" using assms(2) by simp
  with assms(2,3) show ?thesis unfolding citation_member [OF assms(1)] by blast
qed

text \<open>
  C10, amended. Every relationship returned by \<open>analyzeRelationships\<close> whose type is
  author, venue or content has a source id different from its target id (these three
  detectors skip a pair of equal ids). A temporal relationship has different ids when the
  sampled papers have pairwise different ids. The citation detector makes no such check:
  for a sampled paper that lists its own id among its references or citations it emits
  the citation relationship from that id to itself, and such a relationship can be
  returned, as it is for the single paper \<open>selfCitingPaper\<close>.
\<close>

theorem self_pairs:
  assumes "fst (analyzeRelationships rnd n papers) = Inr rels" and "r \<in> set rels"
  shows "(relationshipType r \<in> {Author, Venue, Content} \<longrightarrow> sourceId r \<noteq> targetId r) \<and>
         (relationshipType r = Temporal \<longrightarrow> distinct (map id' (sampledPapersOf papers)) \<longrightarrow>
            sourceId r \<noteq> targetId r) \<and>
         (p \<in> set (sampledPapersOf papers) \<and>
          (id' p \<in> set (referenceIds p) \<or> id' p \<in> set (citedByIds p)) \<longrightarrow>
            (\<exists>cit. findCitationRelationships (sampledPapersOf papers) = Inr cit \<and>
                   citationEdge (id' p) (id' p) p \<in> set cit)) \<and>
         fst (analyzeRelationships rnd_low 0 [selfCitingPaper]) =
           Inr [rel ''P'' ''P'' Citation (9 / 10) (CitationCountOf (Some 0))]"
proof -
  from analyzeRelationships_subset [OF assms(1)] obtain cit where
    c: "findCitationRelationships (sampledPapersOf papers) = Inr cit" and
    s: "set rels \<subseteq> set (nonCitationEdges rnd n papers) \<union> set cit" by blast
  have self: "fst (analyzeRelationships rnd_low 0 [selfCitingPaper]) =
           Inr [rel ''P'' ''P'' Citation (9 / 10) (CitationCountOf (Some 0))]"
    by code_simp
  have emitted: "p \<in> set (sampledPapersOf papers) \<and>
          (id' p \<in> set (referenceIds p) \<or> id' p \<in> set (citedByIds p)) \<longrightarrow>
            (\<exists>cit. findCitationRelationships (sampledPapersOf papers) = Inr cit \<and>
                   citationEdge (id' p) (id' p) p \<in> set cit)"
    using c citation_self_edge [OF c] by blast
  from s assms(2) have "r \<in> set (nonCitationEdges rnd n papers) \<or> r \<in> set cit" by auto
  then have "(relationshipType r \<in> {Author, Venue, Content} \<longrightarrow> sourceId r \<noteq> targetId r) \<and>
         (relationshipType r = Temporal \<longrightarrow> distinct (map id' (sampledPapersOf papers)) \<longrightarrow>
            sourceId r \<noteq> targetId r)"
  proof
    assume "r \<in> set (nonCitationEdges rnd n papers)"
    from nonCitationEdges_props [OF this] show ?thesis by auto
  next
    assume "r \<in> set cit"
    from citation_props [OF c this] show ?thesis by auto
  qed
  with emitted self show ?thesis by blast
qed

theorem self_pairs_witness:
  "fst (analyzeRelationships rnd_high 0 sharedAuthorPapers) =
     Inr [rel ''A'' ''D'' Author (3 / 10) (AuthorOverlap [''x'']),
          rel ''A'' ''B'' Temporal (3 / 10) (YearDifference 0),
          rel ''A'' ''C'' Temporal (3 / 10) (YearDifference 1),
          rel ''B'' ''C'' Temporal (3 / 10) (YearDifference 1)] \<and>
   distinct (map id' (sampledPapersOf sharedAuthorPapers)) \<and>
   sourceId (rel ''A'' ''B'' Temporal (3 / 10) (YearDifference 0)) \<noteq>
     targetId (rel ''A'' ''B'' Temporal (3 / 10) (YearDifference 0)) \<and>
   sourceId (rel ''A'' ''D'' Author (3 / 10) (AuthorOverlap [''x''])) \<noteq>
     targetId (rel ''A'' ''D'' Author (3 / 10) (AuthorOverlap [''x'']))"
proof -
  have h: "fst (analyzeRelationships rnd_high 0 sharedAuthorPapers) =
     Inr [rel ''A'' ''D'' Author (3 / 10) (AuthorOverlap [''x'']),
          rel ''A'' ''B'' Temporal (3 / 10) (YearDifference 0),
          rel ''A'' ''C'' Temporal (3 / 10) (YearDifference 1),
          rel ''B'' ''C'' Temporal (3 / 10) (YearDifference 1)]"
    by code_simp
  have d: "distinct (map id' (sampledPapersOf sharedAuthorPapers))" by code_simp
  from self_pairs [OF h, of "rel ''A'' ''B'' Temporal (3 / 10) (YearDifference 0)"]
       self_pairs [OF h, of "rel ''A'' ''D'' Author (3 / 10) (AuthorOverlap [''x''])"] h d
  show ?thesis by (simp add: rel_def)
qed

end
